theory Spec2Isabelle
  imports Main "HOL-Library.Word" "HOL-Library.Sublist" "HOL-Library.Multiset"
begin

section \<open>Go values shared by both packages\<close>

text \<open>
  The repository has two packages. Package main holds the puzzle: Resources, Command,
  Scenario and Sequence, where a Sequence is one node of the search tree. Package
  parallelsearch holds the generic engine that explores such a tree with a pool of workers.
  Both are embedded here; the puzzle first, as in the source file.

  A Go int is taken at 64 bits (the width on the platforms the program is built for) and is
  a word, so that add and subtract wrap around and the comparisons of the source are the
  signed ones. Size, Turns and ActionsPerTurn are uint32.
\<close>

type_synonym go_int = "64 word"

type_synonym uint32 = "32 word"

text \<open>
  The run-time panics the modelled code can raise. A function that can panic returns a sum
  with the panic on the left.
\<close>

datatype go_panic =
    NilDereference
  | IndexOutOfRange
  | DivideByZero
  | MakeSizeOutOfRange
  | NegativeWaitGroupCounter
  | SendOnClosedChannel
  | CloseOfClosedChannel

definition and_then :: "go_panic + 'a \<Rightarrow> ('a \<Rightarrow> go_panic + 'b) \<Rightarrow> go_panic + 'b" where
  "and_then m f = (case m of Inl e \<Rightarrow> Inl e | Inr x \<Rightarrow> f x)"

section \<open>Package main: resources, commands, scenarios and sequences\<close>

record Resources =
  Comm :: go_int
  Data :: go_int
  Nav :: go_int
  Power :: go_int
  Drift :: go_int
  Heat :: go_int
  Thrust :: go_int
  Crew :: go_int
  Radiation :: go_int

record Command =
  Name :: string
  Input :: Resources
  Output :: Resources

record Scenario =
  Turns :: uint32
  ActionsPerTurn :: uint32
  Start :: Resources
  Goal :: Resources
  Commands :: "Command list"
  TurnCost :: Resources
  TurnMustEndAbove :: Resources
  TurnMustEndBelow :: Resources

text \<open>
  A Sequence holds pointers: to its scenario, to its Resources, to its Command and to the
  previous Sequence. The properties about mutation depend on what these pointers share, so the
  objects live in an explicit heap and a pointer is an address into it. A pointer to
  Resources is either a cell of the heap or the address of the Start field of a scenario:
  startSequence builds the root with the pointer to scenario.Start itself, so a write through
  the root's Resources pointer would change the scenario.

  Allocation appends to the heap, so a new address is the old length and is never an
  address in use. An address outside the heap stands for a nil pointer: reading or writing
  through it panics.
\<close>

datatype res_ptr = ResCell nat | ScenarioStart nat

record Sequence =
  scenario :: nat
  Resources :: res_ptr
  Command :: "nat option"
  Prev :: "nat option"
  Size :: uint32

record heap =
  scenarios :: "Scenario list"
  resources :: "Resources list"
  commands :: "Command list"
  sequences :: "Sequence list"

text \<open>
  add, subtract and endsWithin of Resources. add_value and subtract_value compute the new
  contents of the receiver; Resources_add and Resources_subtract below are the methods
  themselves, which write that value through the receiver pointer. The other operand is
  only read, so it is passed by value.
\<close>

definition add_value :: "Resources \<Rightarrow> Resources \<Rightarrow> Resources" where
  "add_value self other =
     \<lparr>Comm = Comm self + Comm other,
      Data = Data self + Data other,
      Nav = Nav self + Nav other,
      Power = Power self + Power other,
      Drift = Drift self + Drift other,
      Heat = Heat self + Heat other,
      Thrust = Thrust self + Thrust other,
      Crew = Crew self + Crew other,
      Radiation = Radiation self + Radiation other\<rparr>"

definition subtract_value :: "Resources \<Rightarrow> Resources \<Rightarrow> Resources" where
  "subtract_value self other =
     \<lparr>Comm = Comm self - Comm other,
      Data = Data self - Data other,
      Nav = Nav self - Nav other,
      Power = Power self - Power other,
      Drift = Drift self - Drift other,
      Heat = Heat self - Heat other,
      Thrust = Thrust self - Thrust other,
      Crew = Crew self - Crew other,
      Radiation = Radiation self - Radiation other\<rparr>"

definition endsWithin :: "Resources \<Rightarrow> Resources \<Rightarrow> Resources \<Rightarrow> bool" where
  "endsWithin self lowerBound upperBound \<longleftrightarrow>
     Comm lowerBound <s Comm self \<and> Comm self <s Comm upperBound \<and>
     Data lowerBound <s Data self \<and> Data self <s Data upperBound \<and>
     Nav lowerBound <s Nav self \<and> Nav self <s Nav upperBound \<and>
     Power lowerBound <s Power self \<and> Power self <s Power upperBound \<and>
     Drift lowerBound <s Drift self \<and> Drift self <s Drift upperBound \<and>
     Heat lowerBound <s Heat self \<and> Heat self <s Heat upperBound \<and>
     Thrust lowerBound <s Thrust self \<and> Thrust self <s Thrust upperBound \<and>
     Crew lowerBound <s Crew self \<and> Crew self <s Crew upperBound \<and>
     Radiation lowerBound <s Radiation self \<and> Radiation self <s Radiation upperBound"

definition load_scenario :: "heap \<Rightarrow> nat \<Rightarrow> go_panic + Scenario" where
  "load_scenario h k =
     (if k < length (scenarios h) then Inr (scenarios h ! k) else Inl NilDereference)"

definition load_seq :: "heap \<Rightarrow> nat \<Rightarrow> go_panic + Sequence" where
  "load_seq h p =
     (if p < length (sequences h) then Inr (sequences h ! p) else Inl NilDereference)"

definition load_cmd :: "heap \<Rightarrow> nat \<Rightarrow> go_panic + Command" where
  "load_cmd h c =
     (if c < length (commands h) then Inr (commands h ! c) else Inl NilDereference)"

fun load_res :: "heap \<Rightarrow> res_ptr \<Rightarrow> go_panic + Resources" where
  "load_res h (ResCell a) =
     (if a < length (resources h) then Inr (resources h ! a) else Inl NilDereference)"
| "load_res h (ScenarioStart k) =
     (if k < length (scenarios h) then Inr (Start (scenarios h ! k)) else Inl NilDereference)"

fun store_res :: "heap \<Rightarrow> res_ptr \<Rightarrow> Resources \<Rightarrow> go_panic + heap" where
  "store_res h (ResCell a) v =
     (if a < length (resources h) then Inr (h\<lparr>resources := (resources h)[a := v]\<rparr>)
      else Inl NilDereference)"
| "store_res h (ScenarioStart k) v =
     (if k < length (scenarios h)
      then Inr (h\<lparr>scenarios := (scenarios h)[k := (scenarios h ! k)\<lparr>Start := v\<rparr>]\<rparr>)
      else Inl NilDereference)"

definition alloc_res :: "heap \<Rightarrow> Resources \<Rightarrow> heap \<times> res_ptr" where
  "alloc_res h v = (h\<lparr>resources := resources h @ [v]\<rparr>, ResCell (length (resources h)))"

definition alloc_cmd :: "heap \<Rightarrow> Command \<Rightarrow> heap \<times> nat" where
  "alloc_cmd h v = (h\<lparr>commands := commands h @ [v]\<rparr>, length (commands h))"

definition alloc_seq :: "heap \<Rightarrow> Sequence \<Rightarrow> heap \<times> nat" where
  "alloc_seq h v = (h\<lparr>sequences := sequences h @ [v]\<rparr>, length (sequences h))"

definition Resources_add :: "heap \<Rightarrow> res_ptr \<Rightarrow> Resources \<Rightarrow> go_panic + heap" where
  "Resources_add h self other =
     and_then (load_res h self) (\<lambda>r. store_res h self (add_value r other))"

definition Resources_subtract :: "heap \<Rightarrow> res_ptr \<Rightarrow> Resources \<Rightarrow> go_panic + heap" where
  "Resources_subtract h self other =
     and_then (load_res h self) (\<lambda>r. store_res h self (subtract_value r other))"

definition Resources_set_Crew :: "heap \<Rightarrow> res_ptr \<Rightarrow> go_int \<Rightarrow> go_panic + heap" where
  "Resources_set_Crew h self v =
     and_then (load_res h self) (\<lambda>r. store_res h self (r\<lparr>Crew := v\<rparr>))"

text \<open>
  The methods of Sequence. The receiver is an address of the heap. The remainder by
  ActionsPerTurn in isNewTurn and isTurnEnd panics in Go when ActionsPerTurn is zero, and
  so it does here.
\<close>

definition totalActions :: "Scenario \<Rightarrow> uint32" where
  "totalActions scn = Turns scn * ActionsPerTurn scn"

definition isNewTurn :: "heap \<Rightarrow> nat \<Rightarrow> go_panic + bool" where
  "isNewTurn h self =
     and_then (load_seq h self) (\<lambda>s.
     and_then (load_scenario h (scenario s)) (\<lambda>scn.
       if ActionsPerTurn scn = 0 then Inl DivideByZero
       else Inr (Size s mod ActionsPerTurn scn = 1)))"

definition isTurnEnd :: "heap \<Rightarrow> nat \<Rightarrow> go_panic + bool" where
  "isTurnEnd h self =
     and_then (load_seq h self) (\<lambda>s.
     and_then (load_scenario h (scenario s)) (\<lambda>scn.
       if ActionsPerTurn scn = 0 then Inl DivideByZero
       else Inr (Size s mod ActionsPerTurn scn = 0)))"

definition hasMoreActionsAvailable :: "heap \<Rightarrow> nat \<Rightarrow> go_panic + bool" where
  "hasMoreActionsAvailable h self =
     and_then (load_seq h self) (\<lambda>s.
     and_then (load_scenario h (scenario s)) (\<lambda>scn.
       Inr (Size s < totalActions scn)))"

definition has_negative :: "Resources \<Rightarrow> bool" where
  "has_negative r \<longleftrightarrow>
     Comm r <s 0 \<or> Data r <s 0 \<or> Nav r <s 0 \<or> Power r <s 0 \<or> Heat r <s 0 \<or> Crew r <s 0"

definition isInvalid :: "heap \<Rightarrow> nat \<Rightarrow> go_panic + bool" where
  "isInvalid h self =
     and_then (isTurnEnd h self) (\<lambda>turnEnd.
     and_then (load_seq h self) (\<lambda>s.
     and_then (load_res h (Resources s)) (\<lambda>r.
     and_then (load_scenario h (scenario s)) (\<lambda>scn.
       if turnEnd \<and> \<not> endsWithin r (TurnMustEndAbove scn) (TurnMustEndBelow scn)
       then Inr True
       else Inr (has_negative r)))))"

text \<open>
  attemptAction. newTurnLogic is the body of its first conditional (the crew reset and the
  turn cost). attemptAction copies the receiver's Resources into a new cell, builds the next
  Sequence around that cell and then works on the cell only. Both objects escape through the
  returned pointer, so both are allocated on the heap, also when nil is returned.
\<close>

definition newTurnLogic :: "heap \<Rightarrow> nat \<Rightarrow> res_ptr \<Rightarrow> go_panic + heap" where
  "newTurnLogic h self nextRes =
     and_then (load_seq h self) (\<lambda>s.
     and_then (load_scenario h (scenario s)) (\<lambda>scn.
     and_then (if 0 <s Crew (Start scn)
               then Resources_set_Crew h nextRes (Crew (Start scn))
               else Inr h) (\<lambda>h1.
     and_then (load_seq h1 self) (\<lambda>s1.
     and_then (load_scenario h1 (scenario s1)) (\<lambda>scn1.
       Resources_add h1 nextRes (TurnCost scn1))))))"

definition attemptAction :: "heap \<Rightarrow> nat \<Rightarrow> nat \<Rightarrow> go_panic + heap \<times> nat option" where
  "attemptAction h self command =
     and_then (load_seq h self) (\<lambda>s.
     and_then (load_res h (Resources s)) (\<lambda>r.
       let (h1, rp) = alloc_res h r;
           (h2, nxt) = alloc_seq h1
              \<lparr>scenario = scenario s, Resources = rp, Command = Some command,
               Prev = Some self, Size = Size s + 1\<rparr>
       in
     and_then (if 1 < Size s + 1 then isNewTurn h2 nxt else Inr False) (\<lambda>newTurn.
     and_then (if newTurn then newTurnLogic h2 self rp else Inr h2) (\<lambda>h3.
     and_then (load_cmd h3 command) (\<lambda>c.
     and_then (Resources_subtract h3 rp (Input c)) (\<lambda>h4.
     and_then (isInvalid h4 nxt) (\<lambda>bad.
       if bad then Inr (h4, None)
       else
     and_then (load_cmd h4 command) (\<lambda>c'.
     and_then (Resources_add h4 rp (Output c')) (\<lambda>h5.
     and_then (isInvalid h5 nxt) (\<lambda>bad'.
       if bad' then Inr (h5, None) else Inr (h5, Some nxt)))))))))))"

text \<open>
  Search visits the commands of the scenario in order. Each iteration copies the command
  into a new object, as the source does, and emits the child when attemptAction returns
  one. The result lists the emitted children in the order of the calls of onNext.
\<close>

fun Search_loop :: "heap \<Rightarrow> nat \<Rightarrow> nat list \<Rightarrow> go_panic + heap \<times> nat list" where
  "Search_loop h self [] = Inr (h, [])"
| "Search_loop h self (i # rest) =
     and_then (load_seq h self) (\<lambda>s.
     and_then (load_scenario h (scenario s)) (\<lambda>scn.
       if length (Commands scn) \<le> i then Inl IndexOutOfRange
       else
         let (h1, command) = alloc_cmd h (Commands scn ! i) in
     and_then (attemptAction h1 self command) (\<lambda>(h2, nxt).
     and_then (Search_loop h2 self rest) (\<lambda>(h3, emitted).
       Inr (h3, (if nxt = None then emitted else the nxt # emitted))))))"

definition Sequence_Search :: "heap \<Rightarrow> nat \<Rightarrow> go_panic + heap \<times> nat list" where
  "Sequence_Search h self =
     and_then (hasMoreActionsAvailable h self) (\<lambda>more.
       if more then
         and_then (load_seq h self) (\<lambda>s.
         and_then (load_scenario h (scenario s)) (\<lambda>scn.
           Search_loop h self [0..<length (Commands scn)]))
       else Inr (h, []))"

definition startSequence :: "heap \<Rightarrow> nat \<Rightarrow> heap \<times> nat" where
  "startSequence h k =
     alloc_seq h \<lparr>scenario = k, Resources = ScenarioStart k, Command = None,
                 Prev = None, Size = 0\<rparr>"

text \<open>
  Two relations between the heap before and after a call. unchanged says that every object
  of the old heap is still there with the same contents. fresh_child says that a returned
  child is a new Sequence whose Prev is the receiver and whose Resources pointer is a cell
  that did not exist before the call.
\<close>

definition unchanged :: "heap \<Rightarrow> heap \<Rightarrow> bool" where
  "unchanged h h' \<longleftrightarrow>
     scenarios h' = scenarios h \<and>
     prefix (resources h) (resources h') \<and>
     prefix (commands h) (commands h') \<and>
     prefix (sequences h) (sequences h')"

definition fresh_child :: "heap \<Rightarrow> heap \<Rightarrow> nat \<Rightarrow> nat \<Rightarrow> bool" where
  "fresh_child h h' self p \<longleftrightarrow>
     length (sequences h) \<le> p \<and> p < length (sequences h') \<and>
     Prev (sequences h' ! p) = Some self \<and>
     (case Resources (sequences h' ! p) of
        ResCell a \<Rightarrow> length (resources h) \<le> a \<and> a < length (resources h')
      | ScenarioStart k \<Rightarrow> False)"

text \<open>
  The two checkpoints of attemptAction as values: the resources after the new-turn
  adjustments and the subtraction of the command's input, and after the addition of its
  output. claimed_invalid states invalidity in the words of the specification: one of the
  six guarded fields is negative, or the size is divisible by ActionsPerTurn and some field
  is not strictly between the two bounds.
\<close>

definition crew_reset :: "Scenario \<Rightarrow> Resources \<Rightarrow> Resources" where
  "crew_reset scn r = (if 0 <s Crew (Start scn) then r\<lparr>Crew := Crew (Start scn)\<rparr> else r)"

definition new_turn_adjusted :: "Scenario \<Rightarrow> uint32 \<Rightarrow> Resources \<Rightarrow> Resources" where
  "new_turn_adjusted scn sz r =
     (if 1 < sz \<and> sz mod ActionsPerTurn scn = 1
      then add_value (crew_reset scn r) (TurnCost scn) else r)"

definition after_input :: "Scenario \<Rightarrow> uint32 \<Rightarrow> Resources \<Rightarrow> Command \<Rightarrow> Resources" where
  "after_input scn sz r cmd = subtract_value (new_turn_adjusted scn sz r) (Input cmd)"

definition after_output :: "Scenario \<Rightarrow> uint32 \<Rightarrow> Resources \<Rightarrow> Command \<Rightarrow> Resources" where
  "after_output scn sz r cmd = add_value (after_input scn sz r cmd) (Output cmd)"

definition claimed_invalid :: "Scenario \<Rightarrow> uint32 \<Rightarrow> Resources \<Rightarrow> bool" where
  "claimed_invalid scn sz r \<longleftrightarrow>
     (\<exists>f \<in> set [Comm, Data, Nav, Power, Heat, Crew]. sint (f r) < 0) \<or>
     (unat (ActionsPerTurn scn) dvd unat sz \<and>
      \<not> (\<forall>f \<in> set [Comm, Data, Nav, Power, Drift, Heat, Thrust, Crew, Radiation].
           sint (f (TurnMustEndAbove scn)) < sint (f r) \<and>
           sint (f r) < sint (f (TurnMustEndBelow scn))))"

text \<open>
  A small scenario for concrete evaluation: two turns, a start with power 3 and crew 1, a
  command that turns power into data and a command that needs data. Its ActionsPerTurn is a
  parameter.
\<close>

definition no_resources :: Resources where
  "no_resources = \<lparr>Comm = 0, Data = 0, Nav = 0, Power = 0, Drift = 0, Heat = 0, Thrust = 0,
     Crew = 0, Radiation = 0\<rparr>"

definition all_resources :: "go_int \<Rightarrow> Resources" where
  "all_resources v = \<lparr>Comm = v, Data = v, Nav = v, Power = v, Drift = v, Heat = v, Thrust = v,
     Crew = v, Radiation = v\<rparr>"

definition example_scenario :: "uint32 \<Rightarrow> Scenario" where
  "example_scenario apt =
     \<lparr>Turns = 2, ActionsPerTurn = apt,
      Start = no_resources\<lparr>Power := 3, Crew := 1\<rparr>,
      Goal = no_resources\<lparr>Data := 2\<rparr>,
      Commands =
        [\<lparr>Name = ''collect'', Input = no_resources\<lparr>Power := 1\<rparr>,
           Output = no_resources\<lparr>Data := 1\<rparr>\<rparr>,
         \<lparr>Name = ''transmit'', Input = no_resources\<lparr>Data := 1\<rparr>,
           Output = no_resources\<lparr>Comm := 1\<rparr>\<rparr>],
      TurnCost = no_resources\<lparr>Power := - 1\<rparr>,
      TurnMustEndAbove = all_resources (- 100),
      TurnMustEndBelow = all_resources 100\<rparr>"

definition example_heap :: "uint32 \<Rightarrow> heap" where
  "example_heap apt =
     fst (startSequence
       \<lparr>scenarios = [example_scenario apt], resources = [],
        commands = Commands (example_scenario apt), sequences = []\<rparr> 0)"

section \<open>Package parallelsearch: the engine as a transition system\<close>

text \<open>
  The engine runs several goroutines: the caller of Start and WaitForFound, the announcer
  started by Start, and the workers of the pool. They communicate only through the wait
  groups, the atomic counters, the pool and the channel of the ParallelSearch value. The
  embedding is an interleaving semantics: the state holds those shared objects and one
  control point for each goroutine, and a step is one goroutine performing its next
  operation on the shared state. An operation whose goroutine must wait is Blocked, and one
  that Go would abort is a Panic.

  A node is any value; the Searchable interface is a record of the three methods. Search
  returns the nodes it passes to its callback, in order. The engine calls the methods of a
  node from one worker only, and the theorems hold for every such record.
\<close>

datatype 'a outcome = Blocked | Panic go_panic | Stepped 'a

record 'n Searchable =
  Search :: "'n \<Rightarrow> 'n list"
  IsFound :: "'n \<Rightarrow> bool"
  Score :: "'n \<Rightarrow> int"

text \<open>
  The control points of a worker: Idle between two jobs, and the places inside search where
  the next operation is the atomic increment, the goal test, the send on the channel, the
  next child of the expansion (the remaining children are kept), the submission of a child
  whose wait group has been incremented, and the Done on the node's own wait group.

  The control points of the caller: inside the loop of Start before and after the Add of
  asyncSearch, receiving in WaitForFound, holding a received value, and returned.
  The control points of the announcer: waiting on the wait group of a depth, reporting that
  depth, closing the channel, and finished.
\<close>

datatype 'n worker =
    Idle
  | AtCount 'n nat
  | AtTest 'n nat
  | AtSend 'n nat
  | AtExpand 'n nat "'n list"
  | AtSubmit 'n nat 'n "'n list"
  | AtDone 'n nat

datatype 'n caller =
    InStart "'n list"
  | InStartSubmit 'n "'n list"
  | Draining "'n list"
  | Got "'n list" 'n
  | Returned "'n list"

datatype announcer = NotStarted | Waiting nat | Reporting nat | Closing | Finished

datatype 'n op = Count nat | GoalTest | Send 'n | Add nat | Submit 'n nat | LoopExit | Done nat

datatype action = Caller | Announcer | Worker nat

text \<open>
  The fields of ParallelSearch. The worker pool is a queue of submitted jobs, first in first
  out, and a fixed number of workers; a job is the node and depth captured by the closure
  that asyncSearch submits. A wait group is its counter. The channel found is its buffer and
  its closed flag; its capacity is searchLimit. A depth is a natural number, as it starts at
  0 and only grows; depthLimit and searchLimit are the ints given to New. The counters of
  searched are unbounded: a 64-bit counter that grows by one for each processed node does
  not wrap in any run that can be carried out.

  The system adds the control points of the caller and the announcer, the lines the
  announcer has printed (depth and count), and the list of the jobs that workers have taken
  from the queue. No step reads that list; the statements about counting refer to it.
\<close>

record 'n ParallelSearch =
  workerPool_queue :: "('n \<times> nat) list"
  workerPool_workers :: "'n worker list"
  depthLimit :: int
  searchLimit :: int
  waiters :: "nat list"
  searched :: "nat list"
  found :: "'n list"
  found_closed :: bool

record 'n system = "'n ParallelSearch" +
  caller :: "'n caller"
  announcer :: announcer
  printed :: "(nat \<times> nat) list"
  started :: "('n \<times> nat) list"

text \<open>
  New panics where make panics: on a negative length or a negative channel capacity.
  launch is the caller entering Start with the given nodes.
\<close>

definition New :: "int \<Rightarrow> int \<Rightarrow> int \<Rightarrow> go_panic + 'n ParallelSearch" where
  "New poolSize depthLimit' searchLimit' =
     (if depthLimit' + 1 < 0 \<or> searchLimit' < 0 then Inl MakeSizeOutOfRange
      else Inr \<lparr>workerPool_queue = [],
                workerPool_workers = replicate (nat poolSize) Idle,
                depthLimit = depthLimit',
                searchLimit = searchLimit',
                waiters = replicate (nat (depthLimit' + 1)) 0,
                searched = replicate (nat (depthLimit' + 1)) 0,
                found = [],
                found_closed = False\<rparr>)"

definition launch :: "'n ParallelSearch \<Rightarrow> 'n list \<Rightarrow> 'n system" where
  "launch ps searchables =
     \<lparr>workerPool_queue = workerPool_queue ps,
      workerPool_workers = workerPool_workers ps,
      depthLimit = depthLimit ps,
      searchLimit = searchLimit ps,
      waiters = waiters ps,
      searched = searched ps,
      found = found ps,
      found_closed = found_closed ps,
      caller = InStart searchables,
      announcer = NotStarted,
      printed = [],
      started = []\<rparr>"

text \<open>
  sort.Slice belongs to the Go library. It is embedded as an insertion sort by the given
  comparison; the library promises a list with the same elements ordered by the comparison,
  in no particular order among elements that compare equal, and the statements below use
  nothing beyond that.
\<close>

fun insert_by :: "('a \<Rightarrow> 'a \<Rightarrow> bool) \<Rightarrow> 'a \<Rightarrow> 'a list \<Rightarrow> 'a list" where
  "insert_by lessFn x [] = [x]"
| "insert_by lessFn x (y # ys) = (if lessFn x y then x # y # ys else y # insert_by lessFn x ys)"

definition sort_Slice :: "('a \<Rightarrow> 'a \<Rightarrow> bool) \<Rightarrow> 'a list \<Rightarrow> 'a list" where
  "sort_Slice lessFn xs = foldr (insert_by lessFn) xs []"

text \<open>
  The operations on the shared state. An index outside waiters or searched panics, Done
  panics on a counter that is already zero, and a send on a closed channel panics. A send
  waits while the buffer is full; on a channel of capacity zero it hands the value to the
  caller when the caller is receiving.
\<close>

definition WaitGroup_Add :: "nat \<Rightarrow> 'n system \<Rightarrow> 'n system outcome" where
  "WaitGroup_Add d s =
     (if d < length (waiters s)
      then Stepped (s\<lparr>waiters := (waiters s)[d := waiters s ! d + 1]\<rparr>)
      else Panic IndexOutOfRange)"

definition WaitGroup_Done :: "nat \<Rightarrow> 'n system \<Rightarrow> 'n system outcome" where
  "WaitGroup_Done d s =
     (if d < length (waiters s)
      then (if waiters s ! d = 0 then Panic NegativeWaitGroupCounter
            else Stepped (s\<lparr>waiters := (waiters s)[d := waiters s ! d - 1]\<rparr>))
      else Panic IndexOutOfRange)"

definition atomic_AddUint64 :: "nat \<Rightarrow> 'n system \<Rightarrow> 'n system outcome" where
  "atomic_AddUint64 d s =
     (if d < length (searched s)
      then Stepped (s\<lparr>searched := (searched s)[d := searched s ! d + 1]\<rparr>)
      else Panic IndexOutOfRange)"

definition workerPool_Submit :: "'n \<Rightarrow> nat \<Rightarrow> 'n system \<Rightarrow> 'n system outcome" where
  "workerPool_Submit n d s = Stepped (s\<lparr>workerPool_queue := workerPool_queue s @ [(n, d)]\<rparr>)"

definition chan_send :: "'n \<Rightarrow> 'n system \<Rightarrow> 'n system outcome" where
  "chan_send n s =
     (if found_closed s then Panic SendOnClosedChannel
      else if length (found s) < nat (searchLimit s) then Stepped (s\<lparr>found := found s @ [n]\<rparr>)
      else (case caller s of
              Draining acc \<Rightarrow>
                if searchLimit s = 0 then Stepped (s\<lparr>caller := Got acc n\<rparr>) else Blocked
            | _ \<Rightarrow> Blocked))"

fun perform :: "'n op \<Rightarrow> 'n system \<Rightarrow> 'n system outcome" where
  "perform (Count d) s = atomic_AddUint64 d s"
| "perform GoalTest s = Stepped s"
| "perform (Send n) s = chan_send n s"
| "perform (Add d) s = WaitGroup_Add d s"
| "perform (Submit n d) s = workerPool_Submit n d s"
| "perform LoopExit s = Stepped s"
| "perform (Done d) s = WaitGroup_Done d s"

text \<open>
  search, one operation at a time: search_op is the operation a worker performs at a control
  point and search_next the control point it reaches when the operation has completed.
  The expansion performs asyncSearch for each child in turn: the Add on the wait group of the
  next depth, then the submission.
\<close>

fun search_op :: "'n worker \<Rightarrow> 'n op" where
  "search_op Idle = LoopExit"
| "search_op (AtCount n d) = Count d"
| "search_op (AtTest n d) = GoalTest"
| "search_op (AtSend n d) = Send n"
| "search_op (AtExpand n d []) = LoopExit"
| "search_op (AtExpand n d (c # cs)) = Add (d + 1)"
| "search_op (AtSubmit n d c cs) = Submit c (d + 1)"
| "search_op (AtDone n d) = Done d"

fun search_next :: "'n Searchable \<Rightarrow> int \<Rightarrow> 'n worker \<Rightarrow> 'n worker" where
  "search_next sb dl Idle = Idle"
| "search_next sb dl (AtCount n d) = AtTest n d"
| "search_next sb dl (AtTest n d) =
     (if IsFound sb n then AtSend n d
      else if int d < dl then AtExpand n d (Search sb n)
      else AtDone n d)"
| "search_next sb dl (AtSend n d) = AtDone n d"
| "search_next sb dl (AtExpand n d []) = AtDone n d"
| "search_next sb dl (AtExpand n d (c # cs)) = AtSubmit n d c cs"
| "search_next sb dl (AtSubmit n d c cs) = AtExpand n d cs"
| "search_next sb dl (AtDone n d) = Idle"

definition resume :: "nat \<Rightarrow> 'n worker \<Rightarrow> 'n system outcome \<Rightarrow> 'n system outcome" where
  "resume i w r =
     (case r of
        Stepped s \<Rightarrow> Stepped (s\<lparr>workerPool_workers := (workerPool_workers s)[i := w]\<rparr>)
      | Blocked \<Rightarrow> Blocked
      | Panic p \<Rightarrow> Panic p)"

definition proceed :: "'n caller \<Rightarrow> 'n system outcome \<Rightarrow> 'n system outcome" where
  "proceed c r =
     (case r of
        Stepped s \<Rightarrow> Stepped (s\<lparr>caller := c\<rparr>)
      | Blocked \<Rightarrow> Blocked
      | Panic p \<Rightarrow> Panic p)"

text \<open>
  A step of worker i. An idle worker takes the job at the head of the queue; a busy one
  performs the next operation of search.
\<close>

definition worker_step :: "'n Searchable \<Rightarrow> 'n system \<Rightarrow> nat \<Rightarrow> 'n system outcome" where
  "worker_step sb s i =
     (if length (workerPool_workers s) \<le> i then Blocked
      else case workerPool_workers s ! i of
        Idle \<Rightarrow>
          (case workerPool_queue s of
             [] \<Rightarrow> Blocked
           | (n, d) # rest \<Rightarrow>
               Stepped (s\<lparr>workerPool_queue := rest,
                          workerPool_workers := (workerPool_workers s)[i := AtCount n d],
                          started := started s @ [(n, d)]\<rparr>))
      | w \<Rightarrow> resume i (search_next sb (depthLimit s) w) (perform (search_op w) s))"

text \<open>
  Start and WaitForFound, as steps of the caller. WaitForFound receives until the channel
  is closed and empty or until the length of found reaches searchLimit, and returns the
  received nodes sorted by the comparison Score(i) > Score(j).
\<close>

definition WaitForFound_result :: "'n Searchable \<Rightarrow> 'n list \<Rightarrow> 'n list" where
  "WaitForFound_result sb found' = sort_Slice (\<lambda>a b. Score sb b < Score sb a) found'"

fun caller_step :: "'n Searchable \<Rightarrow> 'n system \<Rightarrow> 'n caller \<Rightarrow> 'n system outcome" where
  "caller_step sb s (InStart (r # rs)) = proceed (InStartSubmit r rs) (WaitGroup_Add 0 s)"
| "caller_step sb s (InStartSubmit r rs) = proceed (InStart rs) (workerPool_Submit r 0 s)"
| "caller_step sb s (InStart []) =
     Stepped (s\<lparr>announcer := (if waiters s = [] then Closing else Waiting 0),
                caller := Draining []\<rparr>)"
| "caller_step sb s (Draining acc) =
     (case found s of
        x # rest \<Rightarrow> Stepped (s\<lparr>found := rest, caller := Got acc x\<rparr>)
      | [] \<Rightarrow> if found_closed s
              then Stepped (s\<lparr>caller := Returned (WaitForFound_result sb acc)\<rparr>)
              else Blocked)"
| "caller_step sb s (Got acc x) =
     Stepped (s\<lparr>caller :=
        (if searchLimit s \<le> int (length (acc @ [x]))
         then Returned (WaitForFound_result sb (acc @ [x]))
         else Draining (acc @ [x]))\<rparr>)"
| "caller_step sb s (Returned res) = Blocked"

text \<open>
  announceDepthCompletion: for each depth in order, wait until the counter of its wait group
  is zero, print the count of that depth when it is positive, and after the last depth close
  the channel. Closing a closed channel panics.
\<close>

fun announceDepthCompletion :: "'n system \<Rightarrow> announcer \<Rightarrow> 'n system outcome" where
  "announceDepthCompletion s NotStarted = Blocked"
| "announceDepthCompletion s (Waiting d) =
     (if length (waiters s) \<le> d then Panic IndexOutOfRange
      else if waiters s ! d = 0 then Stepped (s\<lparr>announcer := Reporting d\<rparr>)
      else Blocked)"
| "announceDepthCompletion s (Reporting d) =
     (if length (searched s) \<le> d then Panic IndexOutOfRange
      else Stepped (s\<lparr>printed := (if 0 < searched s ! d then printed s @ [(d, searched s ! d)]
                                    else printed s),
                      announcer := (if Suc d < length (waiters s) then Waiting (Suc d)
                                    else Closing)\<rparr>))"
| "announceDepthCompletion s Closing =
     (if found_closed s then Panic CloseOfClosedChannel
      else Stepped (s\<lparr>found_closed := True, announcer := Finished\<rparr>))"
| "announceDepthCompletion s Finished = Blocked"

text \<open>
  A schedule is a list of actions, each naming the goroutine that moves next. run follows a
  schedule; an action whose goroutine is blocked leaves the state as it is. execute builds
  the engine with New, enters Start and follows the schedule. Every behaviour of the program
  up to some moment is execute on some schedule.
\<close>

fun step :: "'n Searchable \<Rightarrow> 'n system \<Rightarrow> action \<Rightarrow> 'n system outcome" where
  "step sb s Caller = caller_step sb s (caller s)"
| "step sb s Announcer = announceDepthCompletion s (announcer s)"
| "step sb s (Worker i) = worker_step sb s i"

fun run :: "'n Searchable \<Rightarrow> 'n system \<Rightarrow> action list \<Rightarrow> go_panic + 'n system" where
  "run sb s [] = Inr s"
| "run sb s (a # as) =
     (case step sb s a of
        Blocked \<Rightarrow> run sb s as
      | Panic p \<Rightarrow> Inl p
      | Stepped s' \<Rightarrow> run sb s' as)"

definition execute ::
  "'n Searchable \<Rightarrow> int \<Rightarrow> int \<Rightarrow> int \<Rightarrow> 'n list \<Rightarrow> action list \<Rightarrow> go_panic + 'n system" where
  "execute sb poolSize depthLimit' searchLimit' searchables schedule =
     (case New poolSize depthLimit' searchLimit' of
        Inl p \<Rightarrow> Inl p
      | Inr ps \<Rightarrow> run sb (launch ps searchables) schedule)"

text \<open>
  search_script lists the operations a worker performs from a control point until it is idle
  again. It depends on the node, the depth and depthLimit only, so it is what the worker does
  in every interleaving.
\<close>

fun remaining_ops :: "'n Searchable \<Rightarrow> 'n worker \<Rightarrow> nat" where
  "remaining_ops sb Idle = 0"
| "remaining_ops sb (AtCount n d) = 2 * length (Search sb n) + 5"
| "remaining_ops sb (AtTest n d) = 2 * length (Search sb n) + 4"
| "remaining_ops sb (AtSend n d) = 2"
| "remaining_ops sb (AtExpand n d cs) = 2 * length cs + 2"
| "remaining_ops sb (AtSubmit n d c cs) = 2 * length cs + 3"
| "remaining_ops sb (AtDone n d) = 1"

function search_script :: "'n Searchable \<Rightarrow> int \<Rightarrow> 'n worker \<Rightarrow> 'n op list" where
  "search_script sb dl w =
     (case w of Idle \<Rightarrow> [] | _ \<Rightarrow> search_op w # search_script sb dl (search_next sb dl w))"
  by pat_completeness auto

termination
  apply (relation "measure (\<lambda>(sb, dl, w). remaining_ops sb w)")
        apply simp_all
  subgoal for sb dl w n d cs by (cases cs) simp_all
  done

section \<open>Quantities and invariants of the engine\<close>

text \<open>
  in_flight counts, for a depth, the jobs in the queue, the nodes being processed by workers,
  and the nodes whose wait group has been incremented by asyncSearch and which are not yet
  in the queue. barrier_exact says that the counter of each wait group is exactly that number.
\<close>

fun holds :: "'n worker \<Rightarrow> nat \<Rightarrow> nat" where
  "holds Idle e = 0"
| "holds (AtCount n d) e = (if d = e then 1 else 0)"
| "holds (AtTest n d) e = (if d = e then 1 else 0)"
| "holds (AtSend n d) e = (if d = e then 1 else 0)"
| "holds (AtExpand n d cs) e = (if d = e then 1 else 0)"
| "holds (AtSubmit n d c cs) e = (if d = e then 1 else 0) + (if Suc d = e then 1 else 0)"
| "holds (AtDone n d) e = (if d = e then 1 else 0)"

fun caller_holds :: "'n caller \<Rightarrow> nat \<Rightarrow> nat" where
  "caller_holds (InStartSubmit r rs) e = (if e = 0 then 1 else 0)"
| "caller_holds (InStart rs) e = 0"
| "caller_holds (Draining acc) e = 0"
| "caller_holds (Got acc x) e = 0"
| "caller_holds (Returned res) e = 0"

definition in_flight :: "'n system \<Rightarrow> nat \<Rightarrow> nat" where
  "in_flight s e =
     length (filter (\<lambda>t. snd t = e) (workerPool_queue s)) +
     (\<Sum>w\<leftarrow>workerPool_workers s. holds w e) +
     caller_holds (caller s) e"

definition barrier_exact :: "'n system \<Rightarrow> bool" where
  "barrier_exact s \<longleftrightarrow>
     (\<forall>e. in_flight s e = (if e < length (waiters s) then waiters s ! e else 0))"

text \<open>
  shape_ok: the slices have depthLimit + 1 entries, and a worker is at the send only with a
  goal node, and inside the expansion only with a node that is no goal, at a depth below
  depthLimit, with a final segment of the node's children left.
\<close>

fun worker_ok :: "'n Searchable \<Rightarrow> int \<Rightarrow> 'n worker \<Rightarrow> bool" where
  "worker_ok sb dl (AtSend n d) \<longleftrightarrow> IsFound sb n"
| "worker_ok sb dl (AtExpand n d cs) \<longleftrightarrow>
     \<not> IsFound sb n \<and> int d < dl \<and> suffix cs (Search sb n)"
| "worker_ok sb dl (AtSubmit n d c cs) \<longleftrightarrow>
     \<not> IsFound sb n \<and> int d < dl \<and> suffix (c # cs) (Search sb n)"
| "worker_ok sb dl Idle \<longleftrightarrow> True"
| "worker_ok sb dl (AtCount n d) \<longleftrightarrow> True"
| "worker_ok sb dl (AtTest n d) \<longleftrightarrow> True"
| "worker_ok sb dl (AtDone n d) \<longleftrightarrow> True"

definition shape_ok :: "'n Searchable \<Rightarrow> 'n system \<Rightarrow> bool" where
  "shape_ok sb s \<longleftrightarrow>
     int (length (waiters s)) = depthLimit s + 1 \<and>
     length (searched s) = length (waiters s) \<and>
     0 \<le> searchLimit s \<and>
     list_all (worker_ok sb (depthLimit s)) (workerPool_workers s)"

text \<open>
  caller_ok: what the caller has collected is empty or shorter than searchLimit, and what
  it returned is sorted by descending score and has fewer than searchLimit entries only when
  the channel is closed.
\<close>

fun caller_ok :: "'n Searchable \<Rightarrow> int \<Rightarrow> bool \<Rightarrow> 'n caller \<Rightarrow> bool" where
  "caller_ok sb limit closed (Draining acc) \<longleftrightarrow> acc = [] \<or> int (length acc) < limit"
| "caller_ok sb limit closed (Got acc x) \<longleftrightarrow> acc = [] \<or> int (length acc) < limit"
| "caller_ok sb limit closed (Returned res) \<longleftrightarrow>
     sorted_wrt (\<lambda>a b. Score sb b \<le> Score sb a) res \<and>
     (if int (length res) < limit then closed
      else length res = 1 \<or> int (length res) = limit)"
| "caller_ok sb limit closed (InStart rs) \<longleftrightarrow> True"
| "caller_ok sb limit closed (InStartSubmit r rs) \<longleftrightarrow> True"

text \<open>
  announcer_ok: the announcer runs exactly when the caller has left Start, every wait group
  it has passed is at zero, the channel is closed exactly when the announcer has finished,
  and the printed lines are the positive counts of the depths it has reported, in order.
\<close>

fun cleared_upto :: "announcer \<Rightarrow> nat \<Rightarrow> nat" where
  "cleared_upto NotStarted len = 0"
| "cleared_upto (Waiting d) len = d"
| "cleared_upto (Reporting d) len = Suc d"
| "cleared_upto Closing len = len"
| "cleared_upto Finished len = len"

fun reported_upto :: "announcer \<Rightarrow> nat \<Rightarrow> nat" where
  "reported_upto NotStarted len = 0"
| "reported_upto (Waiting d) len = d"
| "reported_upto (Reporting d) len = d"
| "reported_upto Closing len = len"
| "reported_upto Finished len = len"

fun in_Start :: "'n caller \<Rightarrow> bool" where
  "in_Start (InStart rs) = True"
| "in_Start (InStartSubmit r rs) = True"
| "in_Start (Draining acc) = False"
| "in_Start (Got acc x) = False"
| "in_Start (Returned res) = False"

fun announcer_in_range :: "announcer \<Rightarrow> nat \<Rightarrow> bool" where
  "announcer_in_range (Waiting d) len \<longleftrightarrow> d < len"
| "announcer_in_range (Reporting d) len \<longleftrightarrow> d < len"
| "announcer_in_range NotStarted len \<longleftrightarrow> True"
| "announcer_in_range Closing len \<longleftrightarrow> True"
| "announcer_in_range Finished len \<longleftrightarrow> True"

definition report_lines :: "nat list \<Rightarrow> nat \<Rightarrow> (nat \<times> nat) list" where
  "report_lines counts k =
     concat (map (\<lambda>e. if 0 < counts ! e then [(e, counts ! e)] else []) [0..<k])"

definition announcer_ok :: "'n system \<Rightarrow> bool" where
  "announcer_ok s \<longleftrightarrow>
     (announcer s = NotStarted \<longleftrightarrow> in_Start (caller s)) \<and>
     cleared_upto (announcer s) (length (waiters s)) \<le> length (waiters s) \<and>
     (\<forall>e < cleared_upto (announcer s) (length (waiters s)). waiters s ! e = 0) \<and>
     announcer_in_range (announcer s) (length (waiters s)) \<and>
     (found_closed s \<longleftrightarrow> announcer s = Finished) \<and>
     printed s = report_lines (searched s) (reported_upto (announcer s) (length (waiters s)))"

definition invariant :: "'n Searchable \<Rightarrow> 'n system \<Rightarrow> bool" where
  "invariant sb s \<longleftrightarrow>
     shape_ok sb s \<and> barrier_exact s \<and> announcer_ok s \<and>
     caller_ok sb (searchLimit s) (found_closed s) (caller s)"








text \<open>
  The two operations of asyncSearch.
\<close>

fun asyncSearch_ops :: "'n \<Rightarrow> nat \<Rightarrow> 'n op list" where
  "asyncSearch_ops n d = [Add d, Submit n d]"

text \<open>
  count_exact: for each depth, the jobs taken from the queue at that depth are the counter
  of that depth plus the workers standing before their increment at that depth, and the
  same for the totals. roots_exact: the jobs submitted at depth 0 together with the start
  nodes not yet submitted are the start nodes, and every submitted depth is within the
  slices. stuck: a worker stands at the send, the caller has returned and the buffer is full.
\<close>

fun uncounted :: "'n worker \<Rightarrow> nat \<Rightarrow> nat" where
  "uncounted (AtCount n d) e = (if d = e then 1 else 0)"
| "uncounted Idle e = 0"
| "uncounted (AtTest n d) e = 0"
| "uncounted (AtSend n d) e = 0"
| "uncounted (AtExpand n d cs) e = 0"
| "uncounted (AtSubmit n d c cs) e = 0"
| "uncounted (AtDone n d) e = 0"

fun at_first_statement :: "'n worker \<Rightarrow> nat" where
  "at_first_statement (AtCount n d) = 1"
| "at_first_statement Idle = 0"
| "at_first_statement (AtTest n d) = 0"
| "at_first_statement (AtSend n d) = 0"
| "at_first_statement (AtExpand n d cs) = 0"
| "at_first_statement (AtSubmit n d c cs) = 0"
| "at_first_statement (AtDone n d) = 0"

definition processed_at :: "'n system \<Rightarrow> nat \<Rightarrow> nat" where
  "processed_at s e = length (filter (\<lambda>t. snd t = e) (started s))"

definition count_exact :: "'n system \<Rightarrow> bool" where
  "count_exact s \<longleftrightarrow>
     (\<forall>e. processed_at s e =
        (if e < length (searched s) then searched s ! e else 0) +
        (\<Sum>w\<leftarrow>workerPool_workers s. uncounted w e)) \<and>
     length (started s) =
        sum_list (searched s) + (\<Sum>w\<leftarrow>workerPool_workers s. at_first_statement w)"

fun pending_roots :: "'n caller \<Rightarrow> 'n list" where
  "pending_roots (InStart rs) = rs"
| "pending_roots (InStartSubmit r rs) = r # rs"
| "pending_roots (Draining acc) = []"
| "pending_roots (Got acc x) = []"
| "pending_roots (Returned res) = []"

definition submitted :: "'n system \<Rightarrow> ('n \<times> nat) list" where
  "submitted s = started s @ workerPool_queue s"

definition roots_exact :: "'n list \<Rightarrow> 'n system \<Rightarrow> bool" where
  "roots_exact roots s \<longleftrightarrow>
     mset (map fst (filter (\<lambda>t. snd t = 0) (submitted s))) + mset (pending_roots (caller s))
       = mset roots \<and>
     (\<forall>t \<in> set (submitted s). snd t < length (waiters s))"

definition stuck :: "'n system \<Rightarrow> nat \<Rightarrow> 'n \<Rightarrow> nat \<Rightarrow> bool" where
  "stuck s i n d \<longleftrightarrow>
     i < length (workerPool_workers s) \<and> workerPool_workers s ! i = AtSend n d \<and>
     (case caller s of Returned res \<Rightarrow> True | _ \<Rightarrow> False) \<and>
     \<not> length (found s) < nat (searchLimit s)"

definition extra_invariant :: "'n list \<Rightarrow> 'n system \<Rightarrow> bool" where
  "extra_invariant roots s \<longleftrightarrow> count_exact s \<and> roots_exact roots s"


text \<open>
  A tree for concrete evaluation: the root 0 is no goal and has the children 1, 2 and 3,
  which are goals with the scores 5, 10 and 7. The schedules run the caller through Start,
  let worker 0 expand the root, and then let three workers process the children.
\<close>

definition example_tree :: "nat Searchable" where
  "example_tree =
     \<lparr>Search = (\<lambda>n. if n = 0 then [1, 2, 3] else []),
      IsFound = (\<lambda>n. n \<noteq> 0),
      Score = (\<lambda>n. if n = 1 then 5 else if n = 2 then 10 else 7)\<rparr>"

definition expand_root :: "action list" where
  "expand_root = replicate 3 Caller @ replicate 11 (Worker 0)"

definition example_schedule :: "action list" where
  "example_schedule =
     expand_root @ replicate 3 (Worker 0) @ replicate 3 (Worker 1) @ replicate 3 (Worker 2) @
     [Worker 0, Caller, Caller, Worker 1, Caller, Caller]"

definition hazard_schedule :: "action list" where
  "hazard_schedule =
     expand_root @ replicate 3 (Worker 0) @ replicate 3 (Worker 1) @ replicate 3 (Worker 2) @
     [Worker 0, Caller, Caller, Worker 1, Worker 2]"

definition exhaust_schedule :: "action list" where
  "exhaust_schedule =
     example_schedule @ replicate 2 (Worker 2) @ [Worker 0, Worker 1] @ replicate 5 Announcer @
     replicate 3 Caller"

text \<open>
  A bound on the steps the announcer needs to close the channel once every wait group is at
  zero.
\<close>

fun announcer_remaining :: "announcer \<Rightarrow> nat \<Rightarrow> nat" where
  "announcer_remaining NotStarted len = 2 * len + 2"
| "announcer_remaining (Waiting d) len = 2 * (len - d) + 1"
| "announcer_remaining (Reporting d) len = 2 * (len - d)"
| "announcer_remaining Closing len = 1"
| "announcer_remaining Finished len = 0"

fun is_expanding :: "'n worker \<Rightarrow> bool" where
  "is_expanding (AtExpand n d cs) = True"
| "is_expanding (AtSubmit n d c cs) = True"
| "is_expanding Idle = False"
| "is_expanding (AtCount n d) = False"
| "is_expanding (AtTest n d) = False"
| "is_expanding (AtSend n d) = False"
| "is_expanding (AtDone n d) = False"

definition later_schedule :: "action list" where
  "later_schedule =
     [Worker 2, Announcer, Announcer, Announcer, Worker 1, Worker 0, Worker 2, Caller, Announcer]"

definition depth0_schedule :: "action list" where
  "depth0_schedule = replicate 3 Caller @ replicate 4 (Worker 0) @ replicate 3 Announcer @ [Caller]"

definition stall_schedule :: "action list" where
  "stall_schedule = hazard_schedule @ [Worker 0, Worker 1, Announcer, Announcer]"

definition hazard_state :: "nat system" where
  "hazard_state = projr (execute example_tree 3 1 1 [0] stall_schedule)"

section \<open>Package main: frame and validity of attemptAction and Search\<close>

lemma and_then_Inr [simp]: "and_then (Inr x) f = f x"
  by (simp add: and_then_def)

lemma and_then_Inl [simp]: "and_then (Inl e) f = Inl e"
  by (simp add: and_then_def)

lemma and_then_eq_Inr:
  "and_then m f = Inr y \<longleftrightarrow> (\<exists>x. m = Inr x \<and> f x = Inr y)"
  by (cases m) simp_all

lemma unchanged_refl: "unchanged h h"
  by (simp add: unchanged_def)

lemma unchanged_trans: "unchanged h1 h2 \<Longrightarrow> unchanged h2 h3 \<Longrightarrow> unchanged h1 h3"
  by (auto simp: unchanged_def)

lemma prefix_list_update:
  "prefix xs ys \<Longrightarrow> length xs \<le> a \<Longrightarrow> prefix xs (ys[a := v])"
  by (auto simp: prefix_def list_update_append)

lemma unchanged_store_fresh:
  "unchanged h0 h \<Longrightarrow> length (resources h0) \<le> a \<Longrightarrow>
   store_res h (ResCell a) v = Inr h' \<Longrightarrow>
   unchanged h0 h' \<and> length (resources h') = length (resources h) \<and>
   sequences h' = sequences h \<and> commands h' = commands h"
  by (auto simp: unchanged_def prefix_list_update split: if_splits)

lemma unchanged_Resources_add:
  "unchanged h0 h \<Longrightarrow> length (resources h0) \<le> a \<Longrightarrow>
   Resources_add h (ResCell a) v = Inr h' \<Longrightarrow>
   unchanged h0 h' \<and> length (resources h') = length (resources h) \<and>
   sequences h' = sequences h \<and> commands h' = commands h"
  unfolding Resources_add_def and_then_eq_Inr
  using unchanged_store_fresh by blast

lemma unchanged_Resources_subtract:
  "unchanged h0 h \<Longrightarrow> length (resources h0) \<le> a \<Longrightarrow>
   Resources_subtract h (ResCell a) v = Inr h' \<Longrightarrow>
   unchanged h0 h' \<and> length (resources h') = length (resources h) \<and>
   sequences h' = sequences h \<and> commands h' = commands h"
  unfolding Resources_subtract_def and_then_eq_Inr
  using unchanged_store_fresh by blast

lemma unchanged_Resources_set_Crew:
  "unchanged h0 h \<Longrightarrow> length (resources h0) \<le> a \<Longrightarrow>
   Resources_set_Crew h (ResCell a) v = Inr h' \<Longrightarrow>
   unchanged h0 h' \<and> length (resources h') = length (resources h) \<and>
   sequences h' = sequences h \<and> commands h' = commands h"
  unfolding Resources_set_Crew_def and_then_eq_Inr
  using unchanged_store_fresh by blast

lemma and_thenE:
  assumes "and_then m f = Inr y"
  obtains x where "m = Inr x" and "f x = Inr y"
  using assms by (auto simp: and_then_eq_Inr)

lemma unchanged_newTurnLogic:
  assumes "unchanged h0 h" "length (resources h0) \<le> a"
    and "newTurnLogic h self (ResCell a) = Inr h'"
  shows "unchanged h0 h' \<and> length (resources h') = length (resources h) \<and>
         sequences h' = sequences h \<and> commands h' = commands h"
proof -
  from assms(3) obtain scn :: Scenario and h1 and scn1 :: Scenario where
    h1: "(if 0 <s Crew (Start scn) then Resources_set_Crew h (ResCell a) (Crew (Start scn))
          else Inr h) = Inr h1"
    and add: "Resources_add h1 (ResCell a) (TurnCost scn1) = Inr h'"
    unfolding newTurnLogic_def by (elim and_thenE)
  have u1: "unchanged h0 h1 \<and> length (resources h1) = length (resources h) \<and>
      sequences h1 = sequences h \<and> commands h1 = commands h"
  proof (cases "0 <s Crew (Start scn)")
    case True
    with h1 show ?thesis
      using unchanged_Resources_set_Crew [OF assms(1,2), of "Crew (Start scn)" h1] by simp
  next
    case False
    with h1 assms(1) show ?thesis by simp
  qed
  with add assms(2) show ?thesis
    using unchanged_Resources_add [of h0 h1 a "TurnCost scn1" h'] by simp
qed

lemma attemptAction_frame:
  assumes "attemptAction h self command = Inr (h', nxt)"
  shows "unchanged h h' \<and> length (resources h') = Suc (length (resources h)) \<and>
         length (sequences h') = Suc (length (sequences h)) \<and>
         commands h' = commands h \<and>
         (\<forall>p. nxt = Some p \<longrightarrow> fresh_child h h' self p)"
proof -
  let ?a = "length (resources h)"
  from assms obtain s where s: "load_seq h self = Inr s"
    and 1: "and_then (load_res h (Resources s)) (\<lambda>r.
       let (h1, rp) = alloc_res h r;
           (h2, nxt) = alloc_seq h1
              \<lparr>scenario = scenario s, Resources = rp, Command = Some command,
               Prev = Some self, Size = Size s + 1\<rparr>
       in
     and_then (if 1 < Size s + 1 then isNewTurn h2 nxt else Inr False) (\<lambda>newTurn.
     and_then (if newTurn then newTurnLogic h2 self rp else Inr h2) (\<lambda>h3.
     and_then (load_cmd h3 command) (\<lambda>c.
     and_then (Resources_subtract h3 rp (Input c)) (\<lambda>h4.
     and_then (isInvalid h4 nxt) (\<lambda>bad.
       if bad then Inr (h4, None)
       else
     and_then (load_cmd h4 command) (\<lambda>c'.
     and_then (Resources_add h4 rp (Output c')) (\<lambda>h5.
     and_then (isInvalid h5 nxt) (\<lambda>bad'.
       if bad' then Inr (h5, None) else Inr (h5, Some nxt)))))))))) = Inr (h', nxt)"
    unfolding attemptAction_def by (erule and_thenE)
  from 1 obtain r where r: "load_res h (Resources s) = Inr r"
    and 2: "(let (h1, rp) = alloc_res h r;
           (h2, nxt) = alloc_seq h1
              \<lparr>scenario = scenario s, Resources = rp, Command = Some command,
               Prev = Some self, Size = Size s + 1\<rparr>
       in
     and_then (if 1 < Size s + 1 then isNewTurn h2 nxt else Inr False) (\<lambda>newTurn.
     and_then (if newTurn then newTurnLogic h2 self rp else Inr h2) (\<lambda>h3.
     and_then (load_cmd h3 command) (\<lambda>c.
     and_then (Resources_subtract h3 rp (Input c)) (\<lambda>h4.
     and_then (isInvalid h4 nxt) (\<lambda>bad.
       if bad then Inr (h4, None)
       else
     and_then (load_cmd h4 command) (\<lambda>c'.
     and_then (Resources_add h4 rp (Output c')) (\<lambda>h5.
     and_then (isInvalid h5 nxt) (\<lambda>bad'.
       if bad' then Inr (h5, None) else Inr (h5, Some nxt)))))))))) = Inr (h', nxt)"
    by (erule and_thenE)
  let ?q = "length (sequences h)"
  let ?nx = "\<lparr>scenario = scenario s, Resources = ResCell ?a, Command = Some command,
               Prev = Some self, Size = Size s + 1\<rparr>"
  let ?h2 = "h\<lparr>resources := resources h @ [r], sequences := sequences h @ [?nx]\<rparr>"
  have u2: "unchanged h ?h2" by (simp add: unchanged_def)
  from 2 have 3: "and_then (if 1 < Size s + 1 then isNewTurn ?h2 ?q else Inr False) (\<lambda>newTurn.
     and_then (if newTurn then newTurnLogic ?h2 self (ResCell ?a) else Inr ?h2) (\<lambda>h3.
     and_then (load_cmd h3 command) (\<lambda>c.
     and_then (Resources_subtract h3 (ResCell ?a) (Input c)) (\<lambda>h4.
     and_then (isInvalid h4 ?q) (\<lambda>bad.
       if bad then Inr (h4, None)
       else
     and_then (load_cmd h4 command) (\<lambda>c'.
     and_then (Resources_add h4 (ResCell ?a) (Output c')) (\<lambda>h5.
     and_then (isInvalid h5 ?q) (\<lambda>bad'.
       if bad' then Inr (h5, None) else Inr (h5, Some ?q))))))))) = Inr (h', nxt)"
    by (simp add: alloc_res_def alloc_seq_def cong: if_cong)
  from 3 obtain newTurn h3 and c :: Command and h4 bad where
    h3: "(if newTurn then newTurnLogic ?h2 self (ResCell ?a) else Inr ?h2) = Inr h3"
    and h4: "Resources_subtract h3 (ResCell ?a) (Input c) = Inr h4"
    and rest: "(if bad then Inr (h4, None)
       else and_then (load_cmd h4 command) (\<lambda>c'.
            and_then (Resources_add h4 (ResCell ?a) (Output c')) (\<lambda>h5.
            and_then (isInvalid h5 ?q) (\<lambda>bad'.
              if bad' then Inr (h5, None) else Inr (h5, Some ?q))))) = Inr (h', nxt)"
    by (elim and_thenE)
  have u3: "unchanged h h3 \<and> length (resources h3) = Suc ?a \<and> sequences h3 = sequences ?h2 \<and>
      commands h3 = commands h"
  proof (cases newTurn)
    case True
    with h3 show ?thesis
      using unchanged_newTurnLogic [OF u2, of ?a self h3] by simp
  next
    case False
    with h3 u2 show ?thesis by auto
  qed
  have u4: "unchanged h h4 \<and> length (resources h4) = Suc ?a \<and> sequences h4 = sequences ?h2 \<and>
      commands h4 = commands h"
    using h4 u3 unchanged_Resources_subtract [of h h3 ?a "Input c" h4]
    by simp
  have fresh: "fresh_child h hx self ?q"
    if "length (resources hx) = Suc ?a" "sequences hx = sequences ?h2" for hx
    using that by (simp add: fresh_child_def)
  show ?thesis
  proof (cases bad)
    case True
    with rest have "h' = h4" "nxt = None" by simp_all
    with u4 show ?thesis by simp
  next
    case False
    with rest have "and_then (load_cmd h4 command) (\<lambda>c'.
            and_then (Resources_add h4 (ResCell ?a) (Output c')) (\<lambda>h5.
            and_then (isInvalid h5 ?q) (\<lambda>bad'.
              if bad' then Inr (h5, None) else Inr (h5, Some ?q)))) = Inr (h', nxt)"
      by simp
    then obtain c' :: Command and h5 bad' where
      h5: "Resources_add h4 (ResCell ?a) (Output c') = Inr h5"
      and fin: "(if bad' then Inr (h5, None) else Inr (h5, Some ?q)) = (Inr (h', nxt) :: go_panic + heap \<times> nat option)"
      by (elim and_thenE)
    have u5: "unchanged h h5 \<and> length (resources h5) = Suc ?a \<and> sequences h5 = sequences ?h2 \<and>
      commands h5 = commands h"
      using h5 u4 unchanged_Resources_add [of h h4 ?a "Output c'" h5]
      by simp
    from fin have hn: "h' = h5" "nxt = None \<or> nxt = Some ?q" by (auto split: if_splits)
    have f5: "fresh_child h h' self ?q" using u5 fresh [of h5] hn(1) by simp
    from hn(2) show ?thesis
    proof
      assume "nxt = None"
      with u5 hn(1) show ?thesis by simp
    next
      assume "nxt = Some ?q"
      with u5 hn(1) f5 show ?thesis by simp
    qed
  qed
qed

lemma prefix_nth: "prefix xs ys \<Longrightarrow> i < length xs \<Longrightarrow> ys ! i = xs ! i"
  by (auto simp: prefix_def nth_append)

lemma unchanged_load_seq:
  "unchanged h h' \<Longrightarrow> load_seq h p = Inr v \<Longrightarrow> load_seq h' p = Inr v"
  by (auto simp: unchanged_def load_seq_def prefix_nth split: if_splits dest: prefix_length_le)

lemma unchanged_load_cmd:
  "unchanged h h' \<Longrightarrow> load_cmd h p = Inr v \<Longrightarrow> load_cmd h' p = Inr v"
  by (auto simp: unchanged_def load_cmd_def prefix_nth split: if_splits dest: prefix_length_le)

lemma unchanged_load_scenario:
  "unchanged h h' \<Longrightarrow> load_scenario h' p = load_scenario h p"
  by (simp add: unchanged_def load_scenario_def)

lemma unchanged_load_res:
  "unchanged h h' \<Longrightarrow> load_res h rp = Inr v \<Longrightarrow> load_res h' rp = Inr v"
  by (cases rp) (auto simp: unchanged_def prefix_nth split: if_splits dest: prefix_length_le)

lemma unchanged_lengths:
  "unchanged h h' \<Longrightarrow> length (resources h) \<le> length (resources h') \<and>
     length (sequences h) \<le> length (sequences h') \<and> length (commands h) \<le> length (commands h')"
  by (auto simp: unchanged_def dest: prefix_length_le)

lemma fresh_child_cell:
  "fresh_child h h' self p \<Longrightarrow>
   \<exists>a. Resources (sequences h' ! p) = ResCell a \<and> length (resources h) \<le> a \<and>
       a < length (resources h')"
  by (auto simp: fresh_child_def split: res_ptr.splits)

lemma fresh_child_mono:
  assumes "unchanged h0 h1" "fresh_child h1 h2 self p" "unchanged h2 h3"
  shows "fresh_child h0 h3 self p"
proof -
  from assms(2) have p: "length (sequences h1) \<le> p" "p < length (sequences h2)"
    by (simp_all add: fresh_child_def)
  from assms(3) p have same: "sequences h3 ! p = sequences h2 ! p"
    by (simp add: unchanged_def prefix_nth)
  from assms(2) obtain a where a: "Resources (sequences h2 ! p) = ResCell a"
    "length (resources h1) \<le> a" "a < length (resources h2)"
    using fresh_child_cell by blast
  from assms(2) have prev: "Prev (sequences h2 ! p) = Some self"
    by (simp add: fresh_child_def)
  from unchanged_lengths [OF assms(1)] unchanged_lengths [OF assms(3)] p a prev same
  show ?thesis by (simp add: fresh_child_def)
qed

lemma unchanged_alloc_cmd: "unchanged h (fst (alloc_cmd h c))"
  by (simp add: alloc_cmd_def unchanged_def)

lemma Search_loop_frame:
  "Search_loop h self idxs = Inr (h', ps) \<Longrightarrow>
   unchanged h h' \<and> (\<forall>p\<in>set ps. fresh_child h h' self p) \<and>
   distinct (map (\<lambda>p. Resources (sequences h' ! p)) ps)"
proof (induction idxs arbitrary: h h' ps)
  case Nil
  then show ?case by (simp add: unchanged_refl)
next
  case (Cons i rest)
  from Cons.prems obtain s and scn :: Scenario where
    body: "(if length (Commands scn) \<le> i then Inl IndexOutOfRange
       else
         let (h1, command) = alloc_cmd h (Commands scn ! i) in
     and_then (attemptAction h1 self command) (\<lambda>(h2, nxt).
     and_then (Search_loop h2 self rest) (\<lambda>(h3, emitted).
       Inr (h3, (if nxt = None then emitted else the nxt # emitted))))) = Inr (h', ps)"
    unfolding Search_loop.simps by (elim and_thenE)
  define h1 where "h1 = fst (alloc_cmd h (Commands scn ! i))"
  define command where "command = snd (alloc_cmd h (Commands scn ! i))"
  from body have "and_then (attemptAction h1 self command) (\<lambda>(h2, nxt).
     and_then (Search_loop h2 self rest) (\<lambda>(h3, emitted).
       Inr (h3, (if nxt = None then emitted else the nxt # emitted)))) = Inr (h', ps)"
    by (simp add: h1_def command_def case_prod_beta split: if_splits)
  then obtain h2 nxt emitted where
    att: "attemptAction h1 self command = Inr (h2, nxt)"
    and rec: "Search_loop h2 self rest = Inr (h', emitted)"
    and ps: "ps = (if nxt = None then emitted else the nxt # emitted)"
    by (auto elim!: and_thenE)
  have u1: "unchanged h h1" by (simp add: h1_def unchanged_alloc_cmd)
  from attemptAction_frame [OF att] have u2: "unchanged h1 h2"
    and f2: "\<forall>p. nxt = Some p \<longrightarrow> fresh_child h1 h2 self p" by simp_all
  from Cons.IH [OF rec] have u3: "unchanged h2 h'"
    and f3: "\<forall>p\<in>set emitted. fresh_child h2 h' self p"
    and d3: "distinct (map (\<lambda>p. Resources (sequences h' ! p)) emitted)" by simp_all
  have u: "unchanged h h'" using u1 u2 u3 unchanged_trans by blast
  have u02: "unchanged h h2" using u1 u2 unchanged_trans by blast
  have fe: "\<forall>p\<in>set emitted. fresh_child h h' self p"
    using f3 fresh_child_mono [OF u02 _ unchanged_refl] by blast
  show ?case
  proof (cases nxt)
    case None
    with ps u fe d3 show ?thesis by simp
  next
    case (Some p)
    with f2 have fp: "fresh_child h1 h2 self p" by simp
    then have fp': "fresh_child h h' self p"
      using fresh_child_mono [OF u1 _ u3] by blast
    from fresh_child_cell [OF fp] obtain a where a: "Resources (sequences h2 ! p) = ResCell a"
      "a < length (resources h2)" by blast
    from fp have "p < length (sequences h2)" by (simp add: fresh_child_def)
    with u3 have "sequences h' ! p = sequences h2 ! p"
      by (auto simp: unchanged_def intro: prefix_nth)
    with a have pa: "Resources (sequences h' ! p) = ResCell a" by simp
    have "Resources (sequences h' ! p) \<noteq> Resources (sequences h' ! q)" if "q \<in> set emitted" for q
    proof -
      from f3 that have "fresh_child h2 h' self q" by blast
      from fresh_child_cell [OF this] a(2) pa show ?thesis by auto
    qed
    with Some ps u fe fp' d3 show ?thesis by auto
  qed
qed

lemma word_mod_eq_0_iff_dvd:
  "(a :: 'a::len word) mod b = 0 \<longleftrightarrow> unat b dvd unat a"
  by (metis mod_eq_0_iff_dvd unat_eq_zero unat_mod)

lemma isInvalid_eval:
  assumes "load_seq h p = Inr n" "load_res h (Resources n) = Inr v"
    "load_scenario h (scenario n) = Inr scn" "ActionsPerTurn scn \<noteq> 0"
  shows "isInvalid h p = Inr (claimed_invalid scn (Size n) v)"
  using assms
  by (auto simp: isInvalid_def isTurnEnd_def claimed_invalid_def has_negative_def endsWithin_def
      word_sless_alt word_mod_eq_0_iff_dvd)

lemma isNewTurn_eval:
  assumes "load_seq h p = Inr n" "load_scenario h (scenario n) = Inr scn" "ActionsPerTurn scn \<noteq> 0"
  shows "isNewTurn h p = Inr (Size n mod ActionsPerTurn scn = 1)"
  using assms by (simp add: isNewTurn_def)

lemma store_res_cell:
  "a < length (resources h) \<Longrightarrow>
   store_res h (ResCell a) v = Inr (h\<lparr>resources := (resources h)[a := v]\<rparr>)"
  by simp

lemma Resources_add_cell:
  "a < length (resources h) \<Longrightarrow>
   Resources_add h (ResCell a) v =
     Inr (h\<lparr>resources := (resources h)[a := add_value (resources h ! a) v]\<rparr>)"
  by (simp add: Resources_add_def)

lemma Resources_subtract_cell:
  "a < length (resources h) \<Longrightarrow>
   Resources_subtract h (ResCell a) v =
     Inr (h\<lparr>resources := (resources h)[a := subtract_value (resources h ! a) v]\<rparr>)"
  by (simp add: Resources_subtract_def)

lemma Resources_set_Crew_cell:
  "a < length (resources h) \<Longrightarrow>
   Resources_set_Crew h (ResCell a) v =
     Inr (h\<lparr>resources := (resources h)[a := (resources h ! a)\<lparr>Crew := v\<rparr>]\<rparr>)"
  by (simp add: Resources_set_Crew_def)

lemma newTurnLogic_eval:
  assumes "load_seq h self = Inr s" "load_scenario h (scenario s) = Inr scn"
    "a < length (resources h)"
  shows "newTurnLogic h self (ResCell a) =
     Inr (h\<lparr>resources := (resources h)[a := add_value (crew_reset scn (resources h ! a)) (TurnCost scn)]\<rparr>)"
  using assms
  by (auto simp: newTurnLogic_def Resources_set_Crew_cell Resources_add_cell crew_reset_def
      load_seq_def load_scenario_def split: if_splits)

lemma attemptAction_eval:
  assumes s: "load_seq h self = Inr s" and r: "load_res h (Resources s) = Inr r"
    and scn: "load_scenario h (scenario s) = Inr scn" and cmd: "load_cmd h command = Inr cmd"
    and apt: "ActionsPerTurn scn \<noteq> 0"
  shows "attemptAction h self command =
    (let nx = \<lparr>scenario = scenario s, Resources = ResCell (length (resources h)),
               Command = Some command, Prev = Some self, Size = Size s + 1\<rparr>;
         r1 = after_input scn (Size s + 1) r cmd;
         r2 = after_output scn (Size s + 1) r cmd
     in if claimed_invalid scn (Size s + 1) r1
        then Inr (h\<lparr>resources := resources h @ [r1], sequences := sequences h @ [nx]\<rparr>, None)
        else if claimed_invalid scn (Size s + 1) r2
        then Inr (h\<lparr>resources := resources h @ [r2], sequences := sequences h @ [nx]\<rparr>, None)
        else Inr (h\<lparr>resources := resources h @ [r2], sequences := sequences h @ [nx]\<rparr>,
                  Some (length (sequences h))))"
proof -
  let ?a = "length (resources h)"
  let ?q = "length (sequences h)"
  let ?nx = "\<lparr>scenario = scenario s, Resources = ResCell ?a, Command = Some command,
               Prev = Some self, Size = Size s + 1\<rparr>"
  let ?H = "\<lambda>v. h\<lparr>resources := resources h @ [v], sequences := sequences h @ [?nx]\<rparr>"
  let ?r0 = "new_turn_adjusted scn (Size s + 1) r"
  let ?r1 = "after_input scn (Size s + 1) r cmd"
  let ?r2 = "after_output scn (Size s + 1) r cmd"
  have ld: "load_seq (?H v) self = Inr s" "load_scenario (?H v) (scenario s) = Inr scn"
    "load_cmd (?H v) command = Inr cmd" "load_seq (?H v) ?q = Inr ?nx"
    "load_res (?H v) (ResCell ?a) = Inr v" for v
    using s scn cmd
    by (auto simp: load_seq_def load_scenario_def load_cmd_def nth_append split: if_splits)
  have nt: "(if 1 < Size s + 1 then isNewTurn (?H r) ?q else Inr False) =
      Inr (1 < Size s + 1 \<and> (Size s + 1) mod ActionsPerTurn scn = 1)"
    using isNewTurn_eval [OF ld(4), of r scn] ld(2) [of r] apt by simp
  have ntl: "(if 1 < Size s + 1 \<and> (Size s + 1) mod ActionsPerTurn scn = 1
      then newTurnLogic (?H r) self (ResCell ?a) else Inr (?H r)) = Inr (?H ?r0)"
    using newTurnLogic_eval [OF ld(1) ld(2), of ?a r]
    by (simp add: new_turn_adjusted_def)
  have sub: "Resources_subtract (?H ?r0) (ResCell ?a) (Input cmd) = Inr (?H ?r1)"
    by (simp add: Resources_subtract_cell after_input_def)
  have add: "Resources_add (?H ?r1) (ResCell ?a) (Output cmd) = Inr (?H ?r2)"
    by (simp add: Resources_add_cell after_output_def)
  have inv: "isInvalid (?H v) ?q = Inr (claimed_invalid scn (Size s + 1) v)" for v
    using isInvalid_eval [OF ld(4), of v v scn] ld(2,5) [of v] apt by simp
  have "attemptAction h self command =
     and_then (if 1 < Size s + 1 then isNewTurn (?H r) ?q else Inr False) (\<lambda>newTurn.
     and_then (if newTurn then newTurnLogic (?H r) self (ResCell ?a) else Inr (?H r)) (\<lambda>h3.
     and_then (load_cmd h3 command) (\<lambda>c.
     and_then (Resources_subtract h3 (ResCell ?a) (Input c)) (\<lambda>h4.
     and_then (isInvalid h4 ?q) (\<lambda>bad.
       if bad then Inr (h4, None)
       else
     and_then (load_cmd h4 command) (\<lambda>c'.
     and_then (Resources_add h4 (ResCell ?a) (Output c')) (\<lambda>h5.
     and_then (isInvalid h5 ?q) (\<lambda>bad'.
       if bad' then Inr (h5, None) else Inr (h5, Some ?q)))))))))"
    using s r by (simp add: attemptAction_def alloc_res_def alloc_seq_def cong: if_cong)
  also have "\<dots> = (if claimed_invalid scn (Size s + 1) ?r1 then Inr (?H ?r1, None)
        else if claimed_invalid scn (Size s + 1) ?r2 then Inr (?H ?r2, None)
        else Inr (?H ?r2, Some ?q))"
    unfolding nt and_then_Inr ntl ld sub inv add by simp
  finally show ?thesis by (simp add: Let_def)
qed

lemma valid_res_ptr_not_fresh:
  assumes "load_res h rp = Inr r" "fresh_child h h' self p"
  shows "Resources (sequences h' ! p) \<noteq> rp"
proof -
  from fresh_child_cell [OF assms(2)] obtain a where
    a: "Resources (sequences h' ! p) = ResCell a" "length (resources h) \<le> a" by blast
  with assms(1) show ?thesis by (cases rp) (auto split: if_splits)
qed

lemma Sequence_Search_frame:
  assumes "Sequence_Search h self = Inr (h', emitted)"
  shows "unchanged h h' \<and> (\<forall>p\<in>set emitted. fresh_child h h' self p) \<and>
         distinct (map (\<lambda>p. Resources (sequences h' ! p)) emitted)"
proof -
  from assms obtain more where
    body: "(if more then
         and_then (load_seq h self) (\<lambda>s.
         and_then (load_scenario h (scenario s)) (\<lambda>scn.
           Search_loop h self [0..<length (Commands scn)]))
       else Inr (h, [])) = Inr (h', emitted)"
    unfolding Sequence_Search_def by (elim and_thenE)
  show ?thesis
  proof (cases more)
    case True
    with body obtain scn :: Scenario where
      "Search_loop h self [0..<length (Commands scn)] = Inr (h', emitted)"
      by (auto elim!: and_thenE)
    then show ?thesis by (rule Search_loop_frame)
  next
    case False
    with body show ?thesis by (simp add: unchanged_refl)
  qed
qed

lemma attemptAction_returns:
  assumes "load_seq h self = Inr s" and "load_res h (Resources s) = Inr r"
    and "load_scenario h (scenario s) = Inr scn" and "load_cmd h command = Inr cmd"
    and "ActionsPerTurn scn \<noteq> 0"
  shows "\<exists>h' nxt. attemptAction h self command = Inr (h', nxt)"
  unfolding attemptAction_eval [OF assms] by (simp add: Let_def)

lemma Search_loop_returns:
  assumes "load_seq h self = Inr s" and "load_res h (Resources s) = Inr r"
    and "load_scenario h (scenario s) = Inr scn" and "ActionsPerTurn scn \<noteq> 0"
    and "\<forall>i \<in> set idxs. i < length (Commands scn)"
  shows "\<exists>h' emitted. Search_loop h self idxs = Inr (h', emitted)"
  using assms
proof (induction idxs arbitrary: h)
  case Nil
  show ?case by simp
next
  case (Cons i rest)
  let ?h1 = "h\<lparr>commands := commands h @ [Commands scn ! i]\<rparr>"
  let ?c = "length (commands h)"
  have u1: "unchanged h ?h1" by (simp add: unchanged_def)
  have s1: "load_seq ?h1 self = Inr s" using u1 Cons.prems(1) by (rule unchanged_load_seq)
  have r1: "load_res ?h1 (Resources s) = Inr r" using u1 Cons.prems(2) by (rule unchanged_load_res)
  have scn1: "load_scenario ?h1 (scenario s) = Inr scn"
    using unchanged_load_scenario [OF u1] Cons.prems(3) by simp
  have c1: "load_cmd ?h1 ?c = Inr (Commands scn ! i)" by (simp add: load_cmd_def)
  from attemptAction_returns [OF s1 r1 scn1 c1 Cons.prems(4)]
  obtain h2 nxt where att: "attemptAction ?h1 self ?c = Inr (h2, nxt)" by blast
  from attemptAction_frame [OF att] have u2: "unchanged ?h1 h2" by simp
  have s2: "load_seq h2 self = Inr s" using u2 s1 by (rule unchanged_load_seq)
  have r2: "load_res h2 (Resources s) = Inr r" using u2 r1 by (rule unchanged_load_res)
  have scn2: "load_scenario h2 (scenario s) = Inr scn"
    using unchanged_load_scenario [OF u2] scn1 by simp
  from Cons.prems(5) have rest: "\<forall>i \<in> set rest. i < length (Commands scn)" by simp
  from Cons.IH [OF s2 r2 scn2 Cons.prems(4) rest]
  obtain h3 emitted where "Search_loop h2 self rest = Inr (h3, emitted)" by blast
  with att Cons.prems(1,3,5) show ?case
    by (simp add: alloc_cmd_def)
qed

lemma Sequence_Search_returns:
  assumes "load_seq h self = Inr s" and "load_res h (Resources s) = Inr r"
    and "load_scenario h (scenario s) = Inr scn"
  shows "\<exists>h' emitted. Sequence_Search h self = Inr (h', emitted)"
proof (cases "Size s < totalActions scn")
  case False
  with assms show ?thesis
    by (simp add: Sequence_Search_def hasMoreActionsAvailable_def)
next
  case True
  then have "ActionsPerTurn scn \<noteq> 0" by (auto simp: totalActions_def)
  from Search_loop_returns [OF assms this, of "[0..<length (Commands scn)]"]
  obtain h' emitted where "Search_loop h self [0..<length (Commands scn)] = Inr (h', emitted)"
    by auto
  with True assms show ?thesis
    by (simp add: Sequence_Search_def hasMoreActionsAvailable_def)
qed

text \<open>
  C9. A node is never mutated after creation. attemptAction and Search leave the receiving
  sequence and the Resources it points to unchanged, and with them every object that
  existed before the call, the scenario and its Start included. Every child that is returned
  or emitted is a new sequence whose Resources pointer is a cell allocated by the call: it
  differs from the receiver's pointer, and the cells of the children emitted by one Search
  are pairwise distinct. Search itself returns for every receiver whose pointers are valid
  (with ActionsPerTurn zero no action is available and it emits nothing).
\<close>
theorem Sequence_never_mutated:
  assumes "load_seq h self = Inr s" and "load_res h (Resources s) = Inr r"
    and "load_scenario h (scenario s) = Inr scn"
  shows "(\<exists>h1 children. Sequence_Search h self = Inr (h1, children)) \<and>
       (attemptAction h self command = Inr (h', nxt) \<longrightarrow>
            load_seq h' self = Inr s \<and> load_res h' (Resources s) = Inr r \<and> unchanged h h' \<and>
            (\<forall>p. nxt = Some p \<longrightarrow>
               fresh_child h h' self p \<and> Resources (sequences h' ! p) \<noteq> Resources s))
       \<and> (Sequence_Search h self = Inr (h'', emitted) \<longrightarrow>
            load_seq h'' self = Inr s \<and> load_res h'' (Resources s) = Inr r \<and> unchanged h h'' \<and>
            (\<forall>p\<in>set emitted.
               fresh_child h h'' self p \<and> Resources (sequences h'' ! p) \<noteq> Resources s) \<and>
            distinct (map (\<lambda>p. Resources (sequences h'' ! p)) emitted))"
proof (intro conjI impI)
  show "\<exists>h1 children. Sequence_Search h self = Inr (h1, children)"
    using assms by (rule Sequence_Search_returns)
next
  assume a: "attemptAction h self command = Inr (h', nxt)"
  from attemptAction_frame [OF a] have u: "unchanged h h'"
    and f: "\<forall>p. nxt = Some p \<longrightarrow> fresh_child h h' self p" by simp_all
  show "load_seq h' self = Inr s" using u assms(1) by (rule unchanged_load_seq)
  show "load_res h' (Resources s) = Inr r" using u assms(2) by (rule unchanged_load_res)
  show "unchanged h h'" by (rule u)
  show "\<forall>p. nxt = Some p \<longrightarrow>
      fresh_child h h' self p \<and> Resources (sequences h' ! p) \<noteq> Resources s"
    using f valid_res_ptr_not_fresh [OF assms(2)] by blast
next
  assume a: "Sequence_Search h self = Inr (h'', emitted)"
  from Sequence_Search_frame [OF a] have u: "unchanged h h''"
    and f: "\<forall>p\<in>set emitted. fresh_child h h'' self p"
    and d: "distinct (map (\<lambda>p. Resources (sequences h'' ! p)) emitted)" by simp_all
  show "load_seq h'' self = Inr s" using u assms(1) by (rule unchanged_load_seq)
  show "load_res h'' (Resources s) = Inr r" using u assms(2) by (rule unchanged_load_res)
  show "unchanged h h''" by (rule u)
  show "\<forall>p\<in>set emitted.
      fresh_child h h'' self p \<and> Resources (sequences h'' ! p) \<noteq> Resources s"
    using f valid_res_ptr_not_fresh [OF assms(2)] by blast
  show "distinct (map (\<lambda>p. Resources (sequences h'' ! p)) emitted)" by (rule d)
qed

theorem Sequence_never_mutated_witness:
  "load_seq (example_heap 2) 0 = Inr (sequences (example_heap 2) ! 0) \<and>
   load_res (example_heap 2) (ScenarioStart 0) = Inr (Start (example_scenario 2)) \<and>
   attemptAction (example_heap 2) 0 0 =
     Inr (fst (projr (attemptAction (example_heap 2) 0 0)), Some 1) \<and>
   load_seq (fst (projr (attemptAction (example_heap 2) 0 0))) 0 =
     Inr (sequences (example_heap 2) ! 0) \<and>
   load_res (fst (projr (attemptAction (example_heap 2) 0 0))) (ScenarioStart 0) =
     Inr (Start (example_scenario 2)) \<and>
   Resources (sequences (fst (projr (attemptAction (example_heap 2) 0 0))) ! 1) \<noteq>
     ScenarioStart 0 \<and>
   Sequence_Search (example_heap 2) 0 =
     Inr (fst (projr (Sequence_Search (example_heap 2) 0)), [1]) \<and>
   load_res (fst (projr (Sequence_Search (example_heap 2) 0))) (ScenarioStart 0) =
     Inr (Start (example_scenario 2)) \<and>
   Resources (sequences (fst (projr (Sequence_Search (example_heap 2) 0))) ! 1) \<noteq>
     ScenarioStart 0"
proof -
  let ?h = "example_heap 2"
  let ?s = "sequences ?h ! 0"
  have s: "load_seq ?h 0 = Inr ?s" by code_simp
  have rs: "Resources ?s = ScenarioStart 0" by code_simp
  have r: "load_res ?h (Resources ?s) = Inr (Start (example_scenario 2))" by code_simp
  have a: "attemptAction ?h 0 0 = Inr (fst (projr (attemptAction ?h 0 0)), Some 1)"
    by code_simp
  have b: "Sequence_Search ?h 0 = Inr (fst (projr (Sequence_Search ?h 0)), [1])"
    by code_simp
  have scn: "load_scenario ?h (scenario ?s) = Inr (example_scenario 2)" by code_simp
  from Sequence_never_mutated [OF s r scn, of 0 "fst (projr (attemptAction ?h 0 0))" "Some 1"
      "fst (projr (Sequence_Search ?h 0))" "[1]"] a b s r rs
  show ?thesis by simp
qed




section \<open>Package parallelsearch: the steps and what they preserve\<close>

declare search_script.simps [simp del]

lemma resume_Stepped:
  "resume i w r = Stepped s' \<longleftrightarrow>
     (\<exists>s1. r = Stepped s1 \<and> s' = s1\<lparr>workerPool_workers := (workerPool_workers s1)[i := w]\<rparr>)"
  by (cases r) (auto simp: resume_def)

lemma proceed_Stepped:
  "proceed c r = Stepped s' \<longleftrightarrow> (\<exists>s1. r = Stepped s1 \<and> s' = s1\<lparr>caller := c\<rparr>)"
  by (cases r) (auto simp: proceed_def)

lemma caller_step_cases [consumes 1, case_names start_add start_submit spawn receive drained collect]:
  assumes "caller_step sb s (caller s) = Stepped s'"
  obtains
    (start_add) r rs where "caller s = InStart (r # rs)" "0 < length (waiters s)"
      "s' = s\<lparr>waiters := (waiters s)[0 := waiters s ! 0 + 1], caller := InStartSubmit r rs\<rparr>"
  | (start_submit) r rs where "caller s = InStartSubmit r rs"
      "s' = s\<lparr>workerPool_queue := workerPool_queue s @ [(r, 0)], caller := InStart rs\<rparr>"
  | (spawn) "caller s = InStart []"
      "s' = s\<lparr>announcer := (if waiters s = [] then Closing else Waiting 0),
                caller := Draining []\<rparr>"
  | (receive) acc x rest where "caller s = Draining acc" "found s = x # rest"
      "s' = s\<lparr>found := rest, caller := Got acc x\<rparr>"
  | (drained) acc where "caller s = Draining acc" "found s = []" "found_closed s"
      "s' = s\<lparr>caller := Returned (WaitForFound_result sb acc)\<rparr>"
  | (collect) acc x where "caller s = Got acc x"
      "s' = s\<lparr>caller := (if searchLimit s \<le> int (length (acc @ [x]))
                           then Returned (WaitForFound_result sb (acc @ [x]))
                           else Draining (acc @ [x]))\<rparr>"
proof (cases "caller s")
  case (InStart rs)
  show ?thesis
  proof (cases rs)
    case Nil
    with InStart assms spawn show ?thesis by simp
  next
    case (Cons r rs')
    with InStart assms start_add [of r rs'] show ?thesis
      by (auto simp: proceed_Stepped WaitGroup_Add_def split: if_splits)
  qed
next
  case (InStartSubmit r rs)
  with assms start_submit [of r rs] show ?thesis
    by (auto simp: proceed_Stepped workerPool_Submit_def)
next
  case (Draining acc)
  show ?thesis
  proof (cases "found s")
    case Nil
    with Draining assms drained [of acc] show ?thesis by (auto split: if_splits)
  next
    case (Cons x rest)
    with Draining assms receive [of acc x rest] show ?thesis by auto
  qed
next
  case (Got acc x)
  with assms collect [of acc x] show ?thesis by auto
next
  case (Returned res)
  with assms show ?thesis by simp
qed

lemma announcer_cases [consumes 1, case_names cleared report close]:
  assumes "announceDepthCompletion s (announcer s) = Stepped s'"
  obtains
    (cleared) d where "announcer s = Waiting d" "d < length (waiters s)" "waiters s ! d = 0"
      "s' = s\<lparr>announcer := Reporting d\<rparr>"
  | (report) d where "announcer s = Reporting d" "d < length (searched s)"
      "s' = s\<lparr>printed := (if 0 < searched s ! d then printed s @ [(d, searched s ! d)]
                            else printed s),
                announcer := (if Suc d < length (waiters s) then Waiting (Suc d) else Closing)\<rparr>"
  | (close) "announcer s = Closing" "\<not> found_closed s"
      "s' = s\<lparr>found_closed := True, announcer := Finished\<rparr>"
  using assms by (cases "announcer s") (auto split: if_splits)

lemma worker_step_cases [consumes 1, case_names dequeue count goal expand prune send handoff
    loop_exit add submit finish]:
  assumes "worker_step sb s i = Stepped s'"
  obtains
    (dequeue) n d rest where "i < length (workerPool_workers s)" "workerPool_workers s ! i = Idle"
      "workerPool_queue s = (n, d) # rest"
      "s' = s\<lparr>workerPool_queue := rest,
                workerPool_workers := (workerPool_workers s)[i := AtCount n d],
                started := started s @ [(n, d)]\<rparr>"
  | (count) n d where "i < length (workerPool_workers s)" "workerPool_workers s ! i = AtCount n d"
      "d < length (searched s)"
      "s' = s\<lparr>searched := (searched s)[d := searched s ! d + 1],
                workerPool_workers := (workerPool_workers s)[i := AtTest n d]\<rparr>"
  | (goal) n d where "i < length (workerPool_workers s)" "workerPool_workers s ! i = AtTest n d"
      "IsFound sb n"
      "s' = s\<lparr>workerPool_workers := (workerPool_workers s)[i := AtSend n d]\<rparr>"
  | (expand) n d where "i < length (workerPool_workers s)" "workerPool_workers s ! i = AtTest n d"
      "\<not> IsFound sb n" "int d < depthLimit s"
      "s' = s\<lparr>workerPool_workers := (workerPool_workers s)[i := AtExpand n d (Search sb n)]\<rparr>"
  | (prune) n d where "i < length (workerPool_workers s)" "workerPool_workers s ! i = AtTest n d"
      "\<not> IsFound sb n" "\<not> int d < depthLimit s"
      "s' = s\<lparr>workerPool_workers := (workerPool_workers s)[i := AtDone n d]\<rparr>"
  | (send) n d where "i < length (workerPool_workers s)" "workerPool_workers s ! i = AtSend n d"
      "\<not> found_closed s" "length (found s) < nat (searchLimit s)"
      "s' = s\<lparr>found := found s @ [n],
                workerPool_workers := (workerPool_workers s)[i := AtDone n d]\<rparr>"
  | (handoff) n d acc where "i < length (workerPool_workers s)"
      "workerPool_workers s ! i = AtSend n d"
      "\<not> found_closed s" "\<not> length (found s) < nat (searchLimit s)"
      "caller s = Draining acc" "searchLimit s = 0"
      "s' = s\<lparr>caller := Got acc n,
                workerPool_workers := (workerPool_workers s)[i := AtDone n d]\<rparr>"
  | (loop_exit) n d where "i < length (workerPool_workers s)"
      "workerPool_workers s ! i = AtExpand n d []"
      "s' = s\<lparr>workerPool_workers := (workerPool_workers s)[i := AtDone n d]\<rparr>"
  | (add) n d c cs where "i < length (workerPool_workers s)"
      "workerPool_workers s ! i = AtExpand n d (c # cs)" "Suc d < length (waiters s)"
      "s' = s\<lparr>waiters := (waiters s)[Suc d := waiters s ! Suc d + 1],
                workerPool_workers := (workerPool_workers s)[i := AtSubmit n d c cs]\<rparr>"
  | (submit) n d c cs where "i < length (workerPool_workers s)"
      "workerPool_workers s ! i = AtSubmit n d c cs"
      "s' = s\<lparr>workerPool_queue := workerPool_queue s @ [(c, Suc d)],
                workerPool_workers := (workerPool_workers s)[i := AtExpand n d cs]\<rparr>"
  | (finish) n d where "i < length (workerPool_workers s)" "workerPool_workers s ! i = AtDone n d"
      "d < length (waiters s)" "0 < waiters s ! d"
      "s' = s\<lparr>waiters := (waiters s)[d := waiters s ! d - 1],
                workerPool_workers := (workerPool_workers s)[i := Idle]\<rparr>"
proof -
  from assms have i: "i < length (workerPool_workers s)"
    by (auto simp: worker_step_def split: if_splits)
  show ?thesis
  proof (cases "workerPool_workers s ! i")
    case Idle
    with assms i dequeue show ?thesis
      by (auto simp: worker_step_def split: list.splits)
  next
    case (AtCount n d)
    with assms i count [of n d] show ?thesis
      by (auto simp: worker_step_def resume_Stepped atomic_AddUint64_def split: if_splits)
  next
    case (AtTest n d)
    with assms i goal [of n d] expand [of n d] prune [of n d] show ?thesis
      by (auto simp: worker_step_def resume_Stepped split: if_splits)
  next
    case (AtSend n d)
    with assms i send [of n d] handoff [of n d] show ?thesis
      by (auto simp: worker_step_def resume_Stepped chan_send_def
          split: if_splits caller.splits)
  next
    case (AtExpand n d cs)
    with assms i loop_exit [of n d] add [of n d] show ?thesis
      by (cases cs) (auto simp: worker_step_def resume_Stepped WaitGroup_Add_def
          split: if_splits)
  next
    case (AtSubmit n d c cs)
    with assms i submit [of n d c cs] show ?thesis
      by (auto simp: worker_step_def resume_Stepped workerPool_Submit_def)
  next
    case (AtDone n d)
    with assms i finish [of n d] show ?thesis
      by (auto simp: worker_step_def resume_Stepped WaitGroup_Done_def split: if_splits)
  qed
qed

lemma step_cases [consumes 1, case_names start_add start_submit spawn receive drained collect cleared report close dequeue count goal expand prune send handoff loop_exit add submit finish]:
  assumes "step sb s a = Stepped s'"
  obtains
    (start_add) r rs where "caller s = InStart (r # rs)" "0 < length (waiters s)"
      "s' = s\<lparr>waiters := (waiters s)[0 := waiters s ! 0 + 1], caller := InStartSubmit r rs\<rparr>"
  | (start_submit) r rs where "caller s = InStartSubmit r rs"
      "s' = s\<lparr>workerPool_queue := workerPool_queue s @ [(r, 0)], caller := InStart rs\<rparr>"
  | (spawn) "caller s = InStart []"
      "s' = s\<lparr>announcer := (if waiters s = [] then Closing else Waiting 0),
                caller := Draining []\<rparr>"
  | (receive) acc x rest where "caller s = Draining acc" "found s = x # rest"
      "s' = s\<lparr>found := rest, caller := Got acc x\<rparr>"
  | (drained) acc where "caller s = Draining acc" "found s = []" "found_closed s"
      "s' = s\<lparr>caller := Returned (WaitForFound_result sb acc)\<rparr>"
  | (collect) acc x where "caller s = Got acc x"
      "s' = s\<lparr>caller := (if searchLimit s \<le> int (length (acc @ [x]))
                           then Returned (WaitForFound_result sb (acc @ [x]))
                           else Draining (acc @ [x]))\<rparr>"
  | (cleared) d where "announcer s = Waiting d" "d < length (waiters s)" "waiters s ! d = 0"
      "s' = s\<lparr>announcer := Reporting d\<rparr>"
  | (report) d where "announcer s = Reporting d" "d < length (searched s)"
      "s' = s\<lparr>printed := (if 0 < searched s ! d then printed s @ [(d, searched s ! d)]
                            else printed s),
                announcer := (if Suc d < length (waiters s) then Waiting (Suc d) else Closing)\<rparr>"
  | (close) "announcer s = Closing" "\<not> found_closed s"
      "s' = s\<lparr>found_closed := True, announcer := Finished\<rparr>"
  | (dequeue) i n d rest where "a = Worker i" "i < length (workerPool_workers s)" "workerPool_workers s ! i = Idle"
      "workerPool_queue s = (n, d) # rest"
      "s' = s\<lparr>workerPool_queue := rest,
                workerPool_workers := (workerPool_workers s)[i := AtCount n d],
                started := started s @ [(n, d)]\<rparr>"
  | (count) i n d where "a = Worker i" "i < length (workerPool_workers s)" "workerPool_workers s ! i = AtCount n d"
      "d < length (searched s)"
      "s' = s\<lparr>searched := (searched s)[d := searched s ! d + 1],
                workerPool_workers := (workerPool_workers s)[i := AtTest n d]\<rparr>"
  | (goal) i n d where "a = Worker i" "i < length (workerPool_workers s)" "workerPool_workers s ! i = AtTest n d"
      "IsFound sb n"
      "s' = s\<lparr>workerPool_workers := (workerPool_workers s)[i := AtSend n d]\<rparr>"
  | (expand) i n d where "a = Worker i" "i < length (workerPool_workers s)" "workerPool_workers s ! i = AtTest n d"
      "\<not> IsFound sb n" "int d < depthLimit s"
      "s' = s\<lparr>workerPool_workers := (workerPool_workers s)[i := AtExpand n d (Search sb n)]\<rparr>"
  | (prune) i n d where "a = Worker i" "i < length (workerPool_workers s)" "workerPool_workers s ! i = AtTest n d"
      "\<not> IsFound sb n" "\<not> int d < depthLimit s"
      "s' = s\<lparr>workerPool_workers := (workerPool_workers s)[i := AtDone n d]\<rparr>"
  | (send) i n d where "a = Worker i" "i < length (workerPool_workers s)" "workerPool_workers s ! i = AtSend n d"
      "\<not> found_closed s" "length (found s) < nat (searchLimit s)"
      "s' = s\<lparr>found := found s @ [n],
                workerPool_workers := (workerPool_workers s)[i := AtDone n d]\<rparr>"
  | (handoff) i n d acc where "a = Worker i" "i < length (workerPool_workers s)"
      "workerPool_workers s ! i = AtSend n d"
      "\<not> found_closed s" "\<not> length (found s) < nat (searchLimit s)"
      "caller s = Draining acc" "searchLimit s = 0"
      "s' = s\<lparr>caller := Got acc n,
                workerPool_workers := (workerPool_workers s)[i := AtDone n d]\<rparr>"
  | (loop_exit) i n d where "a = Worker i" "i < length (workerPool_workers s)"
      "workerPool_workers s ! i = AtExpand n d []"
      "s' = s\<lparr>workerPool_workers := (workerPool_workers s)[i := AtDone n d]\<rparr>"
  | (add) i n d c cs where "a = Worker i" "i < length (workerPool_workers s)"
      "workerPool_workers s ! i = AtExpand n d (c # cs)" "Suc d < length (waiters s)"
      "s' = s\<lparr>waiters := (waiters s)[Suc d := waiters s ! Suc d + 1],
                workerPool_workers := (workerPool_workers s)[i := AtSubmit n d c cs]\<rparr>"
  | (submit) i n d c cs where "a = Worker i" "i < length (workerPool_workers s)"
      "workerPool_workers s ! i = AtSubmit n d c cs"
      "s' = s\<lparr>workerPool_queue := workerPool_queue s @ [(c, Suc d)],
                workerPool_workers := (workerPool_workers s)[i := AtExpand n d cs]\<rparr>"
  | (finish) i n d where "a = Worker i" "i < length (workerPool_workers s)" "workerPool_workers s ! i = AtDone n d"
      "d < length (waiters s)" "0 < waiters s ! d"
      "s' = s\<lparr>waiters := (waiters s)[d := waiters s ! d - 1],
                workerPool_workers := (workerPool_workers s)[i := Idle]\<rparr>"
proof (cases a)
  case Caller
  with assms have "caller_step sb s (caller s) = Stepped s'" by simp
  then show ?thesis
    by (cases rule: caller_step_cases)
       (rule start_add start_submit spawn receive drained collect; assumption)+
next
  case Announcer
  with assms have "announceDepthCompletion s (announcer s) = Stepped s'" by simp
  then show ?thesis
    by (cases rule: announcer_cases) (rule cleared report close; assumption)+
next
  case (Worker i)
  with assms have "worker_step sb s i = Stepped s'" by simp
  then show ?thesis
    by (cases rule: worker_step_cases)
       (rule dequeue count goal expand prune send handoff loop_exit add submit finish;
        (rule Worker | assumption))+
qed

lemma sum_list_map_update:
  fixes f :: "'a \<Rightarrow> 'b::comm_monoid_add"
  shows "i < length ws \<Longrightarrow>
    (\<Sum>w\<leftarrow>ws[i := w']. f w) + f (ws ! i) = (\<Sum>w\<leftarrow>ws. f w) + f w'"
proof (induction ws arbitrary: i)
  case Nil
  then show ?case by simp
next
  case (Cons a ws)
  show ?case
  proof (cases i)
    case 0
    then show ?thesis by (simp add: add.commute add.left_commute)
  next
    case (Suc j)
    with Cons.prems have "j < length ws" by simp
    from Cons.IH [OF this] Suc show ?thesis
      by (simp add: add.assoc)
  qed
qed

lemma list_all_update:
  "list_all P ws \<Longrightarrow> P w' \<Longrightarrow> list_all P (ws[i := w'])"
  by (induction ws arbitrary: i) (auto split: nat.splits)

lemma list_all_nth: "list_all P ws \<Longrightarrow> i < length ws \<Longrightarrow> P (ws ! i)"
  by (simp add: list_all_length)

lemma shape_ok_step:
  assumes "step sb s a = Stepped s'" "shape_ok sb s"
  shows "shape_ok sb s'"
  using assms
proof (cases rule: step_cases)
  case (submit i n d c cs)
  with assms(2) have "worker_ok sb (depthLimit s) (AtSubmit n d c cs)"
    by (auto simp: shape_ok_def dest: list_all_nth)
  then have "worker_ok sb (depthLimit s) (AtExpand n d cs)"
    by (auto dest: suffix_ConsD)
  with submit assms(2) show ?thesis
    by (auto simp: shape_ok_def intro: list_all_update)
next
  case (add i n d c cs)
  with assms(2) have "worker_ok sb (depthLimit s) (AtExpand n d (c # cs))"
    by (auto simp: shape_ok_def dest: list_all_nth)
  then have "worker_ok sb (depthLimit s) (AtSubmit n d c cs)" by simp
  with add assms(2) show ?thesis
    by (auto simp: shape_ok_def intro: list_all_update)
qed (auto simp: shape_ok_def intro: list_all_update)

lemma nth_le_sum_list:
  fixes f :: "'a \<Rightarrow> nat"
  shows "i < length ws \<Longrightarrow> f (ws ! i) \<le> (\<Sum>w\<leftarrow>ws. f w)"
  by (induction ws arbitrary: i) (auto simp: nth_Cons split: nat.splits intro: trans_le_add2)

lemma sum_list_update_nat:
  fixes f :: "'a \<Rightarrow> nat"
  shows "i < length ws \<Longrightarrow>
    (\<Sum>w\<leftarrow>ws[i := w']. f w) = (\<Sum>w\<leftarrow>ws. f w) + f w' - f (ws ! i)"
  using sum_list_map_update [of i ws f w'] by linarith

lemma barrier_exact_worker_step:
  assumes "worker_step sb s i = Stepped s'" "barrier_exact s"
  shows "barrier_exact s'"
  unfolding barrier_exact_def
proof
  fix e
  from assms(2) have inv: "in_flight s e = (if e < length (waiters s) then waiters s ! e else 0)"
    by (simp add: barrier_exact_def)
  have le: "i < length (workerPool_workers s) \<Longrightarrow>
      holds (workerPool_workers s ! i) e \<le> (\<Sum>w\<leftarrow>workerPool_workers s. holds w e)"
    by (rule nth_le_sum_list)
  from assms(1) show "in_flight s' e = (if e < length (waiters s') then waiters s' ! e else 0)"
    using inv le
    by (cases rule: worker_step_cases)
       (auto simp: in_flight_def sum_list_update_nat nth_list_update split: if_splits)
qed

lemma barrier_exact_caller_step:
  assumes "caller_step sb s (caller s) = Stepped s'" "barrier_exact s"
  shows "barrier_exact s'"
  unfolding barrier_exact_def
proof
  fix e
  from assms(2) have inv: "in_flight s e = (if e < length (waiters s) then waiters s ! e else 0)"
    by (simp add: barrier_exact_def)
  from assms(1) show "in_flight s' e = (if e < length (waiters s') then waiters s' ! e else 0)"
    using inv
    by (cases rule: caller_step_cases)
       (auto simp: in_flight_def nth_list_update split: if_splits)
qed

lemma barrier_exact_announcer_step:
  assumes "announceDepthCompletion s (announcer s) = Stepped s'" "barrier_exact s"
  shows "barrier_exact s'"
  using assms
  by (cases rule: announcer_cases) (auto simp: barrier_exact_def in_flight_def)

lemma barrier_exact_step:
  assumes "step sb s a = Stepped s'" "barrier_exact s"
  shows "barrier_exact s'"
  using assms barrier_exact_worker_step barrier_exact_caller_step barrier_exact_announcer_step
  by (cases a) auto

subsection \<open>Sorting, and the caller\<close>

lemma mset_insert_by: "mset (insert_by lessFn x ys) = add_mset x (mset ys)"
  by (induction ys) auto

lemma mset_sort_Slice: "mset (sort_Slice lessFn xs) = mset xs"
  by (induction xs) (simp_all add: sort_Slice_def mset_insert_by)

lemma length_sort_Slice: "length (sort_Slice lessFn xs) = length xs"
  using mset_sort_Slice [of lessFn xs] by (metis size_mset)

lemma set_insert_by: "set (insert_by lessFn x ys) = insert x (set ys)"
  by (induction ys) auto

lemma sorted_insert_by_Score:
  "sorted_wrt (\<lambda>a b. Score sb b \<le> Score sb a) ys \<Longrightarrow>
   sorted_wrt (\<lambda>a b. Score sb b \<le> Score sb a)
     (insert_by (\<lambda>a b. Score sb b < Score sb a) x ys)"
  by (induction ys) (auto simp: set_insert_by)

lemma sorted_WaitForFound_result:
  "sorted_wrt (\<lambda>a b. Score sb b \<le> Score sb a) (WaitForFound_result sb xs)"
  by (induction xs) (simp_all add: WaitForFound_result_def sort_Slice_def sorted_insert_by_Score)


lemma length_WaitForFound_result: "length (WaitForFound_result sb xs) = length xs"
  by (simp add: WaitForFound_result_def length_sort_Slice)

lemma caller_ok_closed:
  "caller_ok sb limit closed c \<Longrightarrow> caller_ok sb limit True c"
  by (cases c) (auto split: if_splits)

lemma caller_ok_step:
  assumes "step sb s a = Stepped s'" "shape_ok sb s"
    and "caller_ok sb (searchLimit s) (found_closed s) (caller s)"
  shows "caller_ok sb (searchLimit s') (found_closed s') (caller s')"
  using assms
  by (cases rule: step_cases)
     (auto simp: sorted_WaitForFound_result length_WaitForFound_result shape_ok_def
        intro: caller_ok_closed split: if_splits)

subsection \<open>The announcer\<close>

lemma report_lines_Suc:
  "report_lines counts (Suc k) =
     report_lines counts k @ (if 0 < counts ! k then [(k, counts ! k)] else [])"
  by (simp add: report_lines_def)

lemma report_lines_update:
  "k \<le> d \<Longrightarrow> report_lines (counts[d := v]) k = report_lines counts k"
  by (induction k) (simp_all add: report_lines_Suc, simp add: report_lines_def)

lemma held_waiter_positive:
  assumes "barrier_exact s" "i < length (workerPool_workers s)"
    "0 < holds (workerPool_workers s ! i) e"
  shows "e < length (waiters s) \<and> 0 < waiters s ! e"
proof -
  from nth_le_sum_list [OF assms(2), of "\<lambda>w. holds w e"] assms(3)
  have "0 < in_flight s e" by (simp add: in_flight_def)
  with assms(1) show ?thesis by (auto simp: barrier_exact_def split: if_splits)
qed

lemma holding_not_cleared:
  assumes "barrier_exact s" "announcer_ok s" "i < length (workerPool_workers s)"
    "0 < holds (workerPool_workers s ! i) e"
  shows "cleared_upto (announcer s) (length (waiters s)) \<le> e \<and> e < length (waiters s)"
proof -
  from held_waiter_positive [OF assms(1,3,4)] have e: "e < length (waiters s)" "0 < waiters s ! e"
    by simp_all
  have "cleared_upto (announcer s) (length (waiters s)) \<le> e"
  proof (rule ccontr)
    assume "\<not> cleared_upto (announcer s) (length (waiters s)) \<le> e"
    then have "e < cleared_upto (announcer s) (length (waiters s))" by simp
    with assms(2) have "waiters s ! e = 0" by (simp add: announcer_ok_def)
    with e(2) show False by simp
  qed
  with e(1) show ?thesis by simp
qed

lemma announcer_ok_worker_step:
  assumes "worker_step sb s i = Stepped s'" "barrier_exact s" "shape_ok sb s" "announcer_ok s"
  shows "announcer_ok s'"
  using assms(1)
proof (cases rule: worker_step_cases)
  case (count n d)
  with holding_not_cleared [OF assms(2,4), of i d]
  have "cleared_upto (announcer s) (length (waiters s)) \<le> d" by simp
  moreover have "reported_upto (announcer s) (length (waiters s))
      \<le> cleared_upto (announcer s) (length (waiters s))"
    by (cases "announcer s") simp_all
  ultimately have "reported_upto (announcer s) (length (waiters s)) \<le> d" by simp
  with count assms(4) show ?thesis
    by (simp add: announcer_ok_def report_lines_update)
next
  case (add n d c cs)
  with holding_not_cleared [OF assms(2,4), of i d]
  have "cleared_upto (announcer s) (length (waiters s)) \<le> d" by simp
  with add assms(4) show ?thesis
    by (auto simp: announcer_ok_def nth_list_update)
next
  case (finish n d)
  with assms(4) show ?thesis
    by (auto simp: announcer_ok_def nth_list_update)
qed (use assms(4) in \<open>auto simp: announcer_ok_def\<close>)

lemma announcer_ok_caller_step:
  assumes "caller_step sb s (caller s) = Stepped s'" "announcer_ok s"
  shows "announcer_ok s'"
  using assms
  by (cases rule: caller_step_cases)
     (auto simp: announcer_ok_def report_lines_def split: if_splits)

lemma announcer_ok_announcer_step:
  assumes "announceDepthCompletion s (announcer s) = Stepped s'" "shape_ok sb s" "announcer_ok s"
  shows "announcer_ok s'"
  using assms(1)
proof (cases rule: announcer_cases)
  case (cleared d)
  with assms(3) show ?thesis
    by (auto simp: announcer_ok_def less_Suc_eq)
next
  case (report d)
  from assms(2) have len: "length (searched s) = length (waiters s)"
    by (simp add: shape_ok_def)
  show ?thesis
  proof (cases "Suc d < length (waiters s)")
    case True
    with report assms(3) show ?thesis
      by (auto simp: announcer_ok_def report_lines_Suc)
  next
    case False
    with report len have "length (waiters s) = Suc d" by simp
    with report assms(3) False show ?thesis
      by (auto simp: announcer_ok_def report_lines_Suc)
  qed
next
  case close
  with assms(3) show ?thesis
    by (auto simp: announcer_ok_def)
qed

lemma announcer_ok_step:
  assumes "step sb s a = Stepped s'" "barrier_exact s" "shape_ok sb s" "announcer_ok s"
  shows "announcer_ok s'"
  using assms announcer_ok_worker_step announcer_ok_caller_step announcer_ok_announcer_step
  by (cases a) auto

subsection \<open>Runs keep the invariants and do not panic\<close>

lemma invariant_step:
  "step sb s a = Stepped s' \<Longrightarrow> invariant sb s \<Longrightarrow> invariant sb s'"
  unfolding invariant_def
  using shape_ok_step barrier_exact_step announcer_ok_step caller_ok_step by blast

lemma step_configuration:
  assumes "step sb s a = Stepped s'"
  shows "depthLimit s' = depthLimit s \<and> searchLimit s' = searchLimit s \<and>
         length (waiters s') = length (waiters s) \<and>
         length (searched s') = length (searched s) \<and>
         length (workerPool_workers s') = length (workerPool_workers s)"
  using assms by (cases rule: step_cases) auto

lemma worker_step_no_panic:
  assumes "invariant sb s"
  shows "worker_step sb s i \<noteq> Panic p"
proof (cases "i < length (workerPool_workers s)")
  case False
  then show ?thesis by (simp add: worker_step_def)
next
  case i: True
  from assms have inv: "shape_ok sb s" "barrier_exact s" "announcer_ok s"
    by (simp_all add: invariant_def)
  from inv(1) i have ok: "worker_ok sb (depthLimit s) (workerPool_workers s ! i)"
    by (auto simp: shape_ok_def dest: list_all_nth)
  from inv(1) have len: "int (length (waiters s)) = depthLimit s + 1"
    "length (searched s) = length (waiters s)" by (simp_all add: shape_ok_def)
  have held: "0 < holds (workerPool_workers s ! i) e \<Longrightarrow>
      e < length (waiters s) \<and> 0 < waiters s ! e \<and>
      cleared_upto (announcer s) (length (waiters s)) \<le> e" for e
    using held_waiter_positive [OF inv(2) i] holding_not_cleared [OF inv(2,3) i] by blast
  show ?thesis
  proof (cases "workerPool_workers s ! i")
    case Idle
    with i show ?thesis by (simp add: worker_step_def split: list.splits)
  next
    case (AtCount n d)
    with held [of d] len i show ?thesis
      by (simp add: worker_step_def resume_def atomic_AddUint64_def)
  next
    case (AtTest n d)
    with i show ?thesis by (simp add: worker_step_def resume_def)
  next
    case (AtSend n d)
    with held [of d] have "cleared_upto (announcer s) (length (waiters s)) \<le> d"
      "d < length (waiters s)" by simp_all
    then have "announcer s \<noteq> Finished" by auto
    with inv(3) have "\<not> found_closed s" by (simp add: announcer_ok_def)
    with AtSend i show ?thesis
      by (simp add: worker_step_def resume_def chan_send_def split: caller.splits)
  next
    case (AtExpand n d cs)
    with ok len have "Suc d < length (waiters s)" by simp
    with AtExpand i show ?thesis
      by (cases cs) (simp_all add: worker_step_def resume_def WaitGroup_Add_def)
  next
    case (AtSubmit n d c cs)
    with i show ?thesis by (simp add: worker_step_def resume_def workerPool_Submit_def)
  next
    case (AtDone n d)
    with held [of d] i show ?thesis
      by (simp add: worker_step_def resume_def WaitGroup_Done_def)
  qed
qed

lemma announcer_no_panic:
  assumes "invariant sb s"
  shows "announceDepthCompletion s (announcer s) \<noteq> Panic p"
proof -
  from assms have "announcer_ok s" "length (searched s) = length (waiters s)"
    by (simp_all add: invariant_def shape_ok_def)
  then show ?thesis
    by (cases "announcer s") (auto simp: announcer_ok_def)
qed

lemma caller_no_panic:
  assumes "invariant sb s" "0 \<le> depthLimit s"
  shows "caller_step sb s (caller s) \<noteq> Panic p"
proof -
  from assms(1) have "int (length (waiters s)) = depthLimit s + 1"
    by (simp add: invariant_def shape_ok_def)
  with assms(2) have "0 < int (length (waiters s))" by simp
  then have "0 < length (waiters s)" by simp
  then show ?thesis
    by (cases "(sb, s, caller s)" rule: caller_step.cases)
       (auto simp: proceed_def WaitGroup_Add_def workerPool_Submit_def split: list.splits)
qed

lemma step_no_panic:
  assumes "invariant sb s" "0 \<le> depthLimit s"
  shows "step sb s a \<noteq> Panic p"
proof (cases a)
  case Caller
  with caller_no_panic [OF assms] show ?thesis by simp
next
  case Announcer
  with announcer_no_panic [OF assms(1)] show ?thesis by simp
next
  case (Worker i)
  with worker_step_no_panic [OF assms(1)] show ?thesis by simp
qed

lemma step_never_closes_twice:
  assumes "invariant sb s"
  shows "step sb s a \<noteq> Panic CloseOfClosedChannel \<and> step sb s a \<noteq> Panic SendOnClosedChannel"
proof (cases a)
  case Caller
  then show ?thesis
    by (cases "(sb, s, caller s)" rule: caller_step.cases)
       (auto simp: proceed_def WaitGroup_Add_def workerPool_Submit_def split: list.splits)
next
  case Announcer
  with announcer_no_panic [OF assms] show ?thesis by simp
next
  case (Worker i)
  with worker_step_no_panic [OF assms] show ?thesis by simp
qed

lemma run_invariant:
  "run sb s acts = Inr s' \<Longrightarrow> invariant sb s \<Longrightarrow> invariant sb s'"
proof (induction acts arbitrary: s)
  case Nil
  then show ?case by simp
next
  case (Cons a acts)
  show ?case
  proof (cases "step sb s a")
    case Blocked
    with Cons show ?thesis by simp
  next
    case (Panic p)
    with Cons.prems show ?thesis by simp
  next
    case (Stepped s1)
    with Cons.prems have "run sb s1 acts = Inr s'" by simp
    moreover from Stepped Cons.prems(2) have "invariant sb s1" by (rule invariant_step)
    ultimately show ?thesis by (rule Cons.IH)
  qed
qed

lemma run_configuration:
  "run sb s acts = Inr s' \<Longrightarrow>
   depthLimit s' = depthLimit s \<and> searchLimit s' = searchLimit s \<and>
   length (waiters s') = length (waiters s) \<and>
   length (searched s') = length (searched s) \<and>
   length (workerPool_workers s') = length (workerPool_workers s)"
proof (induction acts arbitrary: s)
  case Nil
  then show ?case by simp
next
  case (Cons a acts)
  show ?case
  proof (cases "step sb s a")
    case Blocked
    with Cons show ?thesis by simp
  next
    case (Panic p)
    with Cons.prems show ?thesis by simp
  next
    case (Stepped s1)
    with Cons.prems have "run sb s1 acts = Inr s'" by simp
    from Cons.IH [OF this] step_configuration [OF Stepped] show ?thesis by simp
  qed
qed

lemma run_total:
  "invariant sb s \<Longrightarrow> 0 \<le> depthLimit s \<Longrightarrow> \<exists>s'. run sb s acts = Inr s'"
proof (induction acts arbitrary: s)
  case Nil
  then show ?case by simp
next
  case (Cons a acts)
  show ?case
  proof (cases "step sb s a")
    case Blocked
    with Cons show ?thesis by simp
  next
    case (Panic p)
    with Cons.prems step_no_panic show ?thesis by blast
  next
    case (Stepped s1)
    from Stepped Cons.prems(1) have "invariant sb s1" by (rule invariant_step)
    moreover from step_configuration [OF Stepped] Cons.prems(2) have "0 \<le> depthLimit s1" by simp
    ultimately have "\<exists>s'. run sb s1 acts = Inr s'" by (rule Cons.IH)
    with Stepped show ?thesis by simp
  qed
qed

lemma in_flight_launch:
  "New poolSize dl sl = Inr ps \<Longrightarrow> in_flight (launch ps roots) e = 0"
  by (auto simp: New_def launch_def in_flight_def split: if_splits)

lemma invariant_launch:
  assumes "New poolSize dl sl = Inr ps"
  shows "invariant sb (launch ps roots)"
proof -
  from assms have "shape_ok sb (launch ps roots)"
    by (auto simp: New_def launch_def shape_ok_def list_all_length split: if_splits)
  moreover from assms in_flight_launch [OF assms] have "barrier_exact (launch ps roots)"
    by (auto simp: barrier_exact_def New_def launch_def split: if_splits)
  moreover from assms have "announcer_ok (launch ps roots)"
    by (auto simp: New_def launch_def announcer_ok_def report_lines_def split: if_splits)
  moreover have "caller_ok sb (searchLimit (launch ps roots)) (found_closed (launch ps roots))
      (caller (launch ps roots))"
    by (simp add: launch_def)
  ultimately show ?thesis by (simp add: invariant_def)
qed

lemma execute_invariant:
  assumes "execute sb poolSize dl sl roots acts = Inr s"
  shows "invariant sb s \<and> depthLimit s = dl \<and> searchLimit s = sl \<and> 0 \<le> sl \<and> 0 \<le> dl + 1 \<and>
         length (workerPool_workers s) = nat poolSize"
proof -
  from assms obtain ps where ps: "New poolSize dl sl = Inr ps"
    and run: "run sb (launch ps roots) acts = Inr s"
    by (auto simp: execute_def split: sum.splits)
  from run_invariant [OF run invariant_launch [OF ps]] have "invariant sb s" .
  moreover from run_configuration [OF run] ps
  have "depthLimit s = dl \<and> searchLimit s = sl \<and> 0 \<le> sl \<and> 0 \<le> dl + 1 \<and>
      length (workerPool_workers s) = nat poolSize"
    by (auto simp: New_def launch_def split: if_splits)
  ultimately show ?thesis by simp
qed

lemma execute_total:
  assumes "0 \<le> dl" "0 \<le> sl"
  shows "\<exists>s. execute sb poolSize dl sl roots acts = Inr s"
proof -
  from assms obtain ps :: "'a ParallelSearch" where ps: "New poolSize dl sl = Inr ps"
    and d: "depthLimit ps = dl"
    by (auto simp: New_def)
  from d assms(1) have "0 \<le> depthLimit (launch ps roots)" by (simp add: launch_def)
  from run_total [OF invariant_launch [OF ps] this]
  obtain s where "run sb (launch ps roots) acts = Inr s" by blast
  with ps show ?thesis by (auto simp: execute_def)
qed

subsection \<open>The goals are conserved\<close>










subsection \<open>The operations of one call of search\<close>

lemma search_script_Idle: "search_script sb dl Idle = []"
  by (subst search_script.simps) simp

lemma search_script_AtDone: "search_script sb dl (AtDone n d) = [Done d]"
  by (subst search_script.simps) (simp add: search_script_Idle)

lemma search_script_AtSend: "search_script sb dl (AtSend n d) = [Send n, Done d]"
  by (subst search_script.simps) (simp add: search_script_AtDone)

lemma search_script_AtExpand:
  "search_script sb dl (AtExpand n d cs) =
     concat (map (\<lambda>c. asyncSearch_ops c (Suc d)) cs) @ [LoopExit, Done d]"
proof (induction cs)
  case Nil
  show ?case by (subst search_script.simps) (simp add: search_script_AtDone)
next
  case (Cons c cs)
  have "search_script sb dl (AtExpand n d (c # cs)) =
      Add (Suc d) # search_script sb dl (AtSubmit n d c cs)"
    by (subst search_script.simps) simp
  also have "search_script sb dl (AtSubmit n d c cs) =
      Submit c (Suc d) # search_script sb dl (AtExpand n d cs)"
    by (subst search_script.simps) simp
  finally show ?case using Cons.IH by simp
qed

lemma search_script_AtCount:
  "search_script sb dl (AtCount n d) =
     [Count d, GoalTest] @
     (if IsFound sb n then [Send n]
      else if int d < dl
        then concat (map (\<lambda>c. asyncSearch_ops c (Suc d)) (Search sb n)) @ [LoopExit]
        else []) @
     [Done d]"
proof -
  have "search_script sb dl (AtCount n d) = Count d # search_script sb dl (AtTest n d)"
    by (subst search_script.simps) simp
  also have "search_script sb dl (AtTest n d) =
      GoalTest # search_script sb dl (search_next sb dl (AtTest n d))"
    by (subst search_script.simps) simp
  finally show ?thesis
    by (simp add: search_script_AtExpand search_script_AtSend search_script_AtDone)
qed

subsection \<open>Counting, start nodes, and the blocked send\<close>

lemma sum_list_increment:
  fixes xs :: "nat list"
  shows "d < length xs \<Longrightarrow> sum_list (xs[d := Suc (xs ! d)]) = Suc (sum_list xs)"
  by (induction xs arbitrary: d) (auto split: nat.splits)

lemma count_exact_worker_step:
  assumes "worker_step sb s i = Stepped s'" "count_exact s"
  shows "count_exact s'"
proof -
  have le: "i < length (workerPool_workers s) \<Longrightarrow>
      uncounted (workerPool_workers s ! i) e \<le> (\<Sum>w\<leftarrow>workerPool_workers s. uncounted w e)" for e
    by (rule nth_le_sum_list)
  have le': "i < length (workerPool_workers s) \<Longrightarrow>
      at_first_statement (workerPool_workers s ! i)
        \<le> (\<Sum>w\<leftarrow>workerPool_workers s. at_first_statement w)"
    by (rule nth_le_sum_list)
  from assms(2) have inv: "\<And>e. processed_at s e =
        (if e < length (searched s) then searched s ! e else 0) +
        (\<Sum>w\<leftarrow>workerPool_workers s. uncounted w e)"
    and tot: "length (started s) =
        sum_list (searched s) + (\<Sum>w\<leftarrow>workerPool_workers s. at_first_statement w)"
    by (simp_all add: count_exact_def)
  have "processed_at s' e =
        (if e < length (searched s') then searched s' ! e else 0) +
        (\<Sum>w\<leftarrow>workerPool_workers s'. uncounted w e)" for e
    using assms(1) inv [of e] le [of e]
    by (cases rule: worker_step_cases)
       (auto simp: processed_at_def sum_list_update_nat nth_list_update split: if_splits)
  moreover have "length (started s') =
        sum_list (searched s') + (\<Sum>w\<leftarrow>workerPool_workers s'. at_first_statement w)"
    using assms(1) tot le'
    by (cases rule: worker_step_cases)
       (auto simp: sum_list_update_nat sum_list_increment)
  ultimately show ?thesis by (simp add: count_exact_def)
qed

lemma count_exact_step:
  assumes "step sb s a = Stepped s'" "count_exact s"
  shows "count_exact s'"
proof (cases a)
  case Caller
  with assms(1) have "caller_step sb s (caller s) = Stepped s'" by simp
  then show ?thesis using assms(2)
    by (cases rule: caller_step_cases) (auto simp: count_exact_def processed_at_def)
next
  case Announcer
  with assms(1) have "announceDepthCompletion s (announcer s) = Stepped s'" by simp
  then show ?thesis using assms(2)
    by (cases rule: announcer_cases) (auto simp: count_exact_def processed_at_def)
next
  case (Worker i)
  with assms count_exact_worker_step show ?thesis by simp
qed

lemma roots_exact_step:
  assumes "step sb s a = Stepped s'" "shape_ok sb s" "barrier_exact s" "roots_exact roots s"
  shows "roots_exact roots s'"
  using assms(1)
proof (cases rule: step_cases)
  case (start_submit r rs)
  then have "0 < in_flight s 0" by (simp add: in_flight_def)
  with assms(3) have "0 < length (waiters s)"
    by (auto simp: barrier_exact_def split: if_splits)
  with start_submit assms(4) show ?thesis
    by (auto simp: roots_exact_def submitted_def)
next
  case (submit i n d c cs)
  with assms(2) have "worker_ok sb (depthLimit s) (AtSubmit n d c cs)"
    by (auto simp: shape_ok_def dest: list_all_nth)
  with assms(2) have "Suc d < length (waiters s)" by (simp add: shape_ok_def)
  with submit assms(4) show ?thesis
    by (auto simp: roots_exact_def submitted_def)
qed (use assms(4) in \<open>auto simp: roots_exact_def submitted_def\<close>)

lemma stuck_step:
  assumes "step sb s a = Stepped s'" "stuck s i n d"
  shows "stuck s' i n d"
  using assms
  by (cases rule: step_cases)
     (auto simp: stuck_def nth_list_update split: caller.splits if_splits)

lemma stuck_blocked:
  assumes "stuck s i n d" "invariant sb s"
  shows "step sb s (Worker i) = Blocked"
proof (cases "step sb s (Worker i)")
  case (Stepped s')
  then have "worker_step sb s i = Stepped s'" by simp
  then show ?thesis using assms(1)
    by (cases rule: worker_step_cases) (auto simp: stuck_def)
next
  case (Panic p)
  with worker_step_no_panic [OF assms(2)] show ?thesis by simp
qed simp

lemma run_extra_invariant:
  "run sb s acts = Inr s' \<Longrightarrow> invariant sb s \<Longrightarrow> extra_invariant roots s \<Longrightarrow>
   extra_invariant roots s'"
proof (induction acts arbitrary: s)
  case Nil
  then show ?case by simp
next
  case (Cons a acts)
  show ?case
  proof (cases "step sb s a")
    case Blocked
    with Cons show ?thesis by simp
  next
    case (Panic p)
    with Cons.prems show ?thesis by simp
  next
    case (Stepped s1)
    with Cons.prems have run: "run sb s1 acts = Inr s'" by simp
    from Stepped Cons.prems(2) have inv: "invariant sb s1" by (rule invariant_step)
    from Cons.prems(2) have "shape_ok sb s" "barrier_exact s" by (simp_all add: invariant_def)
    with Cons.prems(3) Stepped have "extra_invariant roots s1"
      using count_exact_step roots_exact_step unfolding extra_invariant_def by blast
    with run inv show ?thesis by (rule Cons.IH)
  qed
qed

lemma run_stuck:
  "run sb s acts = Inr s' \<Longrightarrow> stuck s i n d \<Longrightarrow> stuck s' i n d"
proof (induction acts arbitrary: s)
  case Nil
  then show ?case by simp
next
  case (Cons a acts)
  show ?case
  proof (cases "step sb s a")
    case Blocked
    with Cons show ?thesis by simp
  next
    case (Panic p)
    with Cons.prems show ?thesis by simp
  next
    case (Stepped s1)
    with Cons.prems have "run sb s1 acts = Inr s'" by simp
    moreover from Stepped Cons.prems(2) have "stuck s1 i n d" by (rule stuck_step)
    ultimately show ?thesis by (rule Cons.IH)
  qed
qed

lemma extra_invariant_launch:
  assumes "New poolSize dl sl = Inr ps"
  shows "extra_invariant roots (launch ps roots)"
  using assms
  by (auto simp: extra_invariant_def count_exact_def roots_exact_def submitted_def
      processed_at_def New_def launch_def sum_list_replicate split: if_splits)

lemma execute_extra_invariant:
  assumes "execute sb poolSize dl sl roots acts = Inr s"
  shows "count_exact s \<and> roots_exact roots s"
proof -
  from assms obtain ps where ps: "New poolSize dl sl = Inr ps"
    and run: "run sb (launch ps roots) acts = Inr s"
    by (auto simp: execute_def split: sum.splits)
  from run_extra_invariant [OF run invariant_launch [OF ps] extra_invariant_launch [OF ps]]
  show ?thesis by (simp add: extra_invariant_def)
qed



section \<open>The statements about the engine\<close>









text \<open>
  The bound by searchLimit needs a positive searchLimit: the loop of WaitForFound tests the
  length after it has appended, so with searchLimit 0 (an unbuffered channel) the caller
  returns one node.
\<close>

lemma searchLimit_zero_returns_one:
  "caller (projr (execute example_tree 3 1 0 [0] hazard_schedule)) = Returned [1]"
  by code_simp

text \<open>
  C2. The list returned by WaitForFound is sorted by descending score: every earlier node
  has a score at least that of every later node, in particular of the next one.
\<close>
theorem WaitForFound_sorted_descending:
  assumes "execute sb poolSize dl sl roots schedule = Inr s"
    and "caller s = Returned res"
  shows "sorted_wrt (\<lambda>a b. Score sb b \<le> Score sb a) res \<and>
         (\<forall>i. Suc i < length res \<longrightarrow> Score sb (res ! Suc i) \<le> Score sb (res ! i))"
proof -
  from execute_invariant [OF assms(1)] assms(2)
  have "caller_ok sb sl (found_closed s) (Returned res)"
    by (auto simp: invariant_def)
  then have "sorted_wrt (\<lambda>a b. Score sb b \<le> Score sb a) res" by simp
  then show ?thesis by (simp add: sorted_wrt_iff_nth_less)
qed

theorem WaitForFound_sorted_descending_witness:
  "execute example_tree 3 1 5 [0] exhaust_schedule =
     Inr (projr (execute example_tree 3 1 5 [0] exhaust_schedule)) \<and>
   caller (projr (execute example_tree 3 1 5 [0] exhaust_schedule)) = Returned [2, 3, 1] \<and>
   Score example_tree 3 \<le> Score example_tree 2 \<and>
   Score example_tree 1 \<le> Score example_tree 3"
proof -
  let ?s = "projr (execute example_tree 3 1 5 [0] exhaust_schedule)"
  have run: "execute example_tree 3 1 5 [0] exhaust_schedule = Inr ?s" by code_simp
  have ret: "caller ?s = Returned [2, 3, 1]" by code_simp
  from WaitForFound_sorted_descending [OF run ret] run ret
  have "\<forall>i. Suc i < 3 \<longrightarrow> Score example_tree ([2, 3, 1] ! Suc i) \<le> Score example_tree ([2, 3, 1] ! i)"
    by simp
  from this [rule_format, of 0] this [rule_format, of 1] run ret
  show ?thesis by simp
qed

lemma asyncSearch_pairs_nth:
  assumes "k < length (concat (map (\<lambda>c. asyncSearch_ops c e) cs))"
    and "concat (map (\<lambda>c. asyncSearch_ops c e) cs) ! k = Submit c' e'"
  shows "0 < k \<and> concat (map (\<lambda>c. asyncSearch_ops c e) cs) ! (k - 1) = Add e' \<and> e' = e"
  using assms
proof (induction cs arbitrary: k)
  case Nil
  then show ?case by simp
next
  case (Cons c cs)
  show ?case
  proof (cases k)
    case 0
    with Cons.prems show ?thesis by simp
  next
    case (Suc j)
    show ?thesis
    proof (cases j)
      case 0
      with Suc Cons.prems show ?thesis by simp
    next
      case (Suc i)
      with \<open>k = Suc j\<close> Cons.prems
      have "i < length (concat (map (\<lambda>c. asyncSearch_ops c e) cs))"
        and "concat (map (\<lambda>c. asyncSearch_ops c e) cs) ! i = Submit c' e'" by simp_all
      from Cons.IH [OF this] Suc \<open>k = Suc j\<close> show ?thesis
        by (cases i) simp_all
    qed
  qed
qed

lemma asyncSearch_pairs_no_Done:
  "Done e' \<notin> set (concat (map (\<lambda>c. asyncSearch_ops c e) cs))"
  by (induction cs) simp_all

lemma asyncSearch_pairs_no_Count:
  "Count e' \<notin> set (concat (map (\<lambda>c. asyncSearch_ops c e) cs))"
  by (induction cs) simp_all

lemma search_script_Submit_after_Add:
  assumes "k < length (search_script sb dl (AtCount n d))"
    and "search_script sb dl (AtCount n d) ! k = Submit c e"
  shows "0 < k \<and> search_script sb dl (AtCount n d) ! (k - 1) = Add e \<and> e = Suc d \<and>
         \<not> IsFound sb n \<and> int d < dl"
proof -
  let ?pairs = "concat (map (\<lambda>c. asyncSearch_ops c (Suc d)) (Search sb n))"
  show ?thesis
  proof (cases "\<not> IsFound sb n \<and> int d < dl")
    case False
    with assms show ?thesis
      by (auto simp: search_script_AtCount nth_Cons split: if_splits nat.splits)
  next
    case True
    then have eq: "search_script sb dl (AtCount n d) =
        Count d # GoalTest # (?pairs @ [LoopExit, Done d])"
      by (simp add: search_script_AtCount)
    from assms obtain j where k: "k = Suc (Suc j)"
      unfolding eq by (cases k; cases "k - 1") auto
    with assms have j: "j < length ?pairs + 2" "(?pairs @ [LoopExit, Done d]) ! j = Submit c e"
      unfolding eq by simp_all
    have jl: "j < length ?pairs"
    proof (rule ccontr)
      assume "\<not> j < length ?pairs"
      with j show False by (auto simp: nth_append nth_Cons split: nat.splits)
    qed
    with j(2) have "?pairs ! j = Submit c e" by (simp add: nth_append)
    from asyncSearch_pairs_nth [OF jl this]
    have "0 < j" "?pairs ! (j - 1) = Add e" "e = Suc d" by simp_all
    with jl k True show ?thesis
      unfolding eq by (cases j) (simp_all add: nth_append)
  qed
qed



lemma queued_waiter_positive:
  assumes "barrier_exact s" "t \<in> set (workerPool_queue s)"
  shows "snd t < length (waiters s) \<and> 0 < waiters s ! snd t"
proof -
  from assms(2) have "t \<in> set (filter (\<lambda>u. snd u = snd t) (workerPool_queue s))" by simp
  then have "0 < length (filter (\<lambda>u. snd u = snd t) (workerPool_queue s))"
    by (metis length_pos_if_in_set)
  then have "0 < in_flight s (snd t)" by (simp add: in_flight_def)
  with assms(1) show ?thesis by (auto simp: barrier_exact_def split: if_splits)
qed

text \<open>
  C4. In every reachable state the counter of the wait group of each depth is exactly the
  number of nodes of that depth in flight, where a node is in flight from the Add of its
  asyncSearch until the Done of its search. So every queued job and every node a worker holds
  is counted, the counter of a depth is positive while a worker still holds a node of that
  depth, and the announcer has not passed that depth. In the operations of one call of
  search, every submission is directly preceded by the Add for the same depth d + 1, and the
  Done for depth d is the last operation and occurs nowhere else.
\<close>
theorem barrier_never_undercounts:
  assumes "execute sb poolSize dl sl roots schedule = Inr s"
  shows "(\<forall>e. in_flight s e = (if e < length (waiters s) then waiters s ! e else 0)) \<and>
         (\<forall>t \<in> set (workerPool_queue s). snd t < length (waiters s) \<and> 0 < waiters s ! snd t) \<and>
         (\<forall>i e. i < length (workerPool_workers s) \<and> 0 < holds (workerPool_workers s ! i) e \<longrightarrow>
            e < length (waiters s) \<and> 0 < waiters s ! e \<and>
            cleared_upto (announcer s) (length (waiters s)) \<le> e) \<and>
         (\<forall>k c e. k < length (search_script sb dl (AtCount n d)) \<and>
            search_script sb dl (AtCount n d) ! k = Submit c e \<longrightarrow>
            0 < k \<and> search_script sb dl (AtCount n d) ! (k - 1) = Add e \<and> e = Suc d) \<and>
         (\<exists>front. search_script sb dl (AtCount n d) = front @ [Done d] \<and>
            (\<forall>e. Done e \<notin> set front))"
proof -
  from execute_invariant [OF assms] have inv: "barrier_exact s" "announcer_ok s"
    by (auto simp: invariant_def)
  have 1: "\<forall>e. in_flight s e = (if e < length (waiters s) then waiters s ! e else 0)"
    using inv(1) by (simp add: barrier_exact_def)
  have 2: "\<forall>t \<in> set (workerPool_queue s). snd t < length (waiters s) \<and> 0 < waiters s ! snd t"
    using queued_waiter_positive [OF inv(1)] by blast
  have 3: "\<forall>i e. i < length (workerPool_workers s) \<and> 0 < holds (workerPool_workers s ! i) e \<longrightarrow>
            e < length (waiters s) \<and> 0 < waiters s ! e \<and>
            cleared_upto (announcer s) (length (waiters s)) \<le> e"
    using held_waiter_positive [OF inv(1)] holding_not_cleared [OF inv] by blast
  have 4: "\<forall>k c e. k < length (search_script sb dl (AtCount n d)) \<and>
            search_script sb dl (AtCount n d) ! k = Submit c e \<longrightarrow>
            0 < k \<and> search_script sb dl (AtCount n d) ! (k - 1) = Add e \<and> e = Suc d"
    using search_script_Submit_after_Add [of _ sb dl n d] by blast
  have 5: "\<exists>front. search_script sb dl (AtCount n d) = front @ [Done d] \<and>
            (\<forall>e. Done e \<notin> set front)"
    by (rule exI [of _ "[Count d, GoalTest] @
     (if IsFound sb n then [Send n]
      else if int d < dl
        then concat (map (\<lambda>c. asyncSearch_ops c (Suc d)) (Search sb n)) @ [LoopExit]
        else [])"])
       (simp add: search_script_AtCount asyncSearch_pairs_no_Done)
  from 1 2 3 4 5 show ?thesis by (intro conjI)
qed

lemma announcer_closes_within:
  assumes "invariant sb s" "\<forall>e < length (waiters s). waiters s ! e = 0"
    and "announcer s \<noteq> NotStarted"
    and "announcer_remaining (announcer s) (length (waiters s)) \<le> k"
  shows "\<exists>s'. run sb s (replicate k Announcer) = Inr s' \<and> found_closed s'"
  using assms
proof (induction k arbitrary: s)
  case 0
  from 0(1) have "announcer_in_range (announcer s) (length (waiters s))"
    by (simp add: invariant_def announcer_ok_def)
  with 0(4) have "announcer s = Finished" by (cases "announcer s") simp_all
  with 0(1) show ?case by (simp add: invariant_def announcer_ok_def)
next
  case (Suc k)
  from Suc.prems(1) have ann: "announcer_ok s" and len: "length (searched s) = length (waiters s)"
    by (simp_all add: invariant_def shape_ok_def)
  show ?case
  proof (cases "step sb s Announcer")
    case (Panic p)
    with announcer_no_panic [OF Suc.prems(1)] show ?thesis by simp
  next
    case Blocked
    have "announcer s = Finished"
    proof (cases "announcer s")
      case NotStarted
      with Suc.prems(3) show ?thesis by simp
    next
      case (Waiting d)
      with ann have "d < length (waiters s)" by (simp add: announcer_ok_def)
      with Waiting Suc.prems(2) Blocked show ?thesis by simp
    next
      case (Reporting d)
      with ann len have "d < length (searched s)" by (simp add: announcer_ok_def)
      with Reporting Blocked show ?thesis by simp
    next
      case Closing
      with ann have "\<not> found_closed s" by (simp add: announcer_ok_def)
      with Closing Blocked show ?thesis by simp
    qed simp
    with ann have "found_closed s" by (simp add: announcer_ok_def)
    have "announcer_remaining (announcer s) (length (waiters s)) \<le> k"
      using \<open>announcer s = Finished\<close> by simp
    from Suc.IH [OF Suc.prems(1,2,3) this] Blocked show ?thesis by simp
  next
    case (Stepped s1)
    then have st: "announceDepthCompletion s (announcer s) = Stepped s1" by simp
    from Stepped Suc.prems(1) have inv1: "invariant sb s1" by (rule invariant_step)
    from st have w1: "waiters s1 = waiters s"
      by (cases rule: announcer_cases) simp_all
    from st Suc.prems(3) have ns1: "announcer s1 \<noteq> NotStarted"
      by (cases rule: announcer_cases) auto
    from st Suc.prems(4) len
    have "announcer_remaining (announcer s1) (length (waiters s)) \<le> k"
      by (cases rule: announcer_cases) (auto split: if_splits)
    with w1 have r1: "announcer_remaining (announcer s1) (length (waiters s1)) \<le> k" by simp
    from Suc.prems(2) w1 have z1: "\<forall>e < length (waiters s1). waiters s1 ! e = 0" by simp
    from Suc.IH [OF inv1 z1 ns1 r1] Stepped show ?thesis by simp
  qed
qed

text \<open>
  C5. The channel is closed at most once, by the announcer, and only after the announcer has
  found the wait group of every depth from 0 to depthLimit at zero, in order, and printed
  the count of exactly those depths whose count is positive. The channel is closed exactly
  when the announcer has finished; no step closes a closed channel; once every wait group
  is at zero the announcer closes the channel within a bounded number of its own steps. A
  caller that returned fewer than searchLimit nodes did so because the channel was closed,
  and a caller that finds the channel empty and open waits.
\<close>
theorem found_closed_at_most_once_after_every_depth:
  assumes "execute sb poolSize dl sl roots schedule = Inr s"
  shows "(found_closed s \<longleftrightarrow> announcer s = Finished) \<and>
         (found_closed s \<longrightarrow>
            int (length (waiters s)) = dl + 1 \<and>
            (\<forall>e < length (waiters s). waiters s ! e = 0) \<and>
            printed s = report_lines (searched s) (length (waiters s)) \<and>
            step sb s Announcer = Blocked) \<and>
         printed s = report_lines (searched s) (reported_upto (announcer s) (length (waiters s))) \<and>
         (\<forall>a s'. step sb s a = Stepped s' \<and> found_closed s' \<and> \<not> found_closed s \<longrightarrow>
            a = Announcer \<and> announcer s = Closing \<and> announcer s' = Finished) \<and>
         (\<forall>a. step sb s a \<noteq> Panic CloseOfClosedChannel) \<and>
         (\<forall>res. caller s = Returned res \<and> int (length res) < sl \<longrightarrow> found_closed s) \<and>
         (\<forall>acc. caller s = Draining acc \<and> found s = [] \<and> \<not> found_closed s \<longrightarrow>
            step sb s Caller = Blocked) \<and>
         ((\<forall>e < length (waiters s). waiters s ! e = 0) \<and> announcer s \<noteq> NotStarted \<longrightarrow>
            (\<exists>s'. run sb s (replicate (2 * length (waiters s) + 1) Announcer) = Inr s' \<and>
                  found_closed s'))"
proof -
  from execute_invariant [OF assms] have inv: "invariant sb s" and cfg: "depthLimit s = dl"
    "searchLimit s = sl" by simp_all
  then have ann: "announcer_ok s" and shape: "shape_ok sb s"
    and cal: "caller_ok sb sl (found_closed s) (caller s)"
    by (auto simp: invariant_def)
  have 1: "found_closed s \<longleftrightarrow> announcer s = Finished"
    using ann by (simp add: announcer_ok_def)
  have 2: "found_closed s \<longrightarrow>
            int (length (waiters s)) = dl + 1 \<and>
            (\<forall>e < length (waiters s). waiters s ! e = 0) \<and>
            printed s = report_lines (searched s) (length (waiters s)) \<and>
            step sb s Announcer = Blocked"
    using ann shape cfg by (auto simp: announcer_ok_def shape_ok_def)
  have 3: "printed s = report_lines (searched s) (reported_upto (announcer s) (length (waiters s)))"
    using ann by (simp add: announcer_ok_def)
  have "a = Announcer \<and> announcer s = Closing \<and> announcer s' = Finished"
    if st: "step sb s a = Stepped s'" and cl: "found_closed s'" "\<not> found_closed s" for a s'
  proof (cases a)
    case Caller
    with st have "caller_step sb s (caller s) = Stepped s'" by simp
    then show ?thesis using cl by (cases rule: caller_step_cases) auto
  next
    case Announcer
    with st have "announceDepthCompletion s (announcer s) = Stepped s'" by simp
    then show ?thesis using cl Announcer by (cases rule: announcer_cases) auto
  next
    case (Worker i)
    with st have "worker_step sb s i = Stepped s'" by simp
    then show ?thesis using cl by (cases rule: worker_step_cases) auto
  qed
  then have 4: "\<forall>a s'. step sb s a = Stepped s' \<and> found_closed s' \<and> \<not> found_closed s \<longrightarrow>
            a = Announcer \<and> announcer s = Closing \<and> announcer s' = Finished" by blast
  have 5: "\<forall>a. step sb s a \<noteq> Panic CloseOfClosedChannel"
    using step_never_closes_twice [OF inv] by simp
  have 6: "\<forall>res. caller s = Returned res \<and> int (length res) < sl \<longrightarrow> found_closed s"
    using cal by auto
  have 7: "\<forall>acc. caller s = Draining acc \<and> found s = [] \<and> \<not> found_closed s \<longrightarrow>
            step sb s Caller = Blocked"
    by simp
  have 8: "(\<forall>e < length (waiters s). waiters s ! e = 0) \<and> announcer s \<noteq> NotStarted \<longrightarrow>
            (\<exists>s'. run sb s (replicate (2 * length (waiters s) + 1) Announcer) = Inr s' \<and>
                  found_closed s')"
  proof
    assume a: "(\<forall>e < length (waiters s). waiters s ! e = 0) \<and> announcer s \<noteq> NotStarted"
    then have "announcer_remaining (announcer s) (length (waiters s))
        \<le> 2 * length (waiters s) + 1"
      by (cases "announcer s") simp_all
    with a show "\<exists>s'. run sb s (replicate (2 * length (waiters s) + 1) Announcer) = Inr s' \<and>
        found_closed s'"
      using announcer_closes_within [OF inv] by blast
  qed
  from 1 2 3 4 5 6 7 8 show ?thesis by (intro conjI)
qed

lemma report_lines_fst: "l \<in> set (report_lines counts k) \<Longrightarrow> fst l < k"
  by (auto simp: report_lines_def split: if_splits)

text \<open>
  C6. Every call of search begins with one increment of the counter of its own depth, before
  the goal test, and performs no other increment. In every reachable state, for any number of
  workers, the jobs taken by workers at a depth are the counter of that depth plus the
  workers that stand before their increment at that depth; summed over the depths, the
  counters and the workers standing before their increment are the jobs taken. When no
  worker stands before its increment, the sum of the counters is the number of nodes
  processed.
\<close>
theorem processed_count_exact:
  assumes "execute sb poolSize dl sl roots schedule = Inr s"
  shows "(\<forall>e. processed_at s e =
            (if e < length (searched s) then searched s ! e else 0) +
            (\<Sum>w\<leftarrow>workerPool_workers s. uncounted w e)) \<and>
         length (started s) =
            sum_list (searched s) + (\<Sum>w\<leftarrow>workerPool_workers s. at_first_statement w) \<and>
         int (length (searched s)) = dl + 1 \<and>
         ((\<forall>w \<in> set (workerPool_workers s). at_first_statement w = 0) \<longrightarrow>
            sum_list (searched s) = length (started s)) \<and>
         (\<exists>rest. search_script sb dl (AtCount n d) = Count d # GoalTest # rest \<and>
            (\<forall>e. Count e \<notin> set rest))"
proof -
  from execute_extra_invariant [OF assms] have cnt: "count_exact s" by simp
  from execute_invariant [OF assms] have len: "int (length (searched s)) = dl + 1"
    by (auto simp: invariant_def shape_ok_def)
  have 1: "\<forall>e. processed_at s e =
            (if e < length (searched s) then searched s ! e else 0) +
            (\<Sum>w\<leftarrow>workerPool_workers s. uncounted w e)"
    using cnt by (simp add: count_exact_def)
  have 2: "length (started s) =
            sum_list (searched s) + (\<Sum>w\<leftarrow>workerPool_workers s. at_first_statement w)"
    using cnt by (simp add: count_exact_def)
  have 4: "(\<forall>w \<in> set (workerPool_workers s). at_first_statement w = 0) \<longrightarrow>
            sum_list (searched s) = length (started s)"
  proof
    assume "\<forall>w \<in> set (workerPool_workers s). at_first_statement w = 0"
    then have "(\<Sum>w\<leftarrow>workerPool_workers s. at_first_statement w) = 0" by simp
    with 2 show "sum_list (searched s) = length (started s)" by simp
  qed
  have 5: "\<exists>rest. search_script sb dl (AtCount n d) = Count d # GoalTest # rest \<and>
            (\<forall>e. Count e \<notin> set rest)"
    by (rule exI [of _ "(if IsFound sb n then [Send n]
      else if int d < dl
        then concat (map (\<lambda>c. asyncSearch_ops c (Suc d)) (Search sb n)) @ [LoopExit]
        else []) @ [Done d]"])
       (simp add: search_script_AtCount asyncSearch_pairs_no_Count)
  from 1 2 len 4 5 show ?thesis by (intro conjI)
qed

text \<open>
  C7. The jobs submitted at depth 0 (queued or taken by a worker), together with the start
  nodes that Start has not yet submitted, are the start nodes given to Start; once the
  caller has left Start they are exactly the start nodes. With depthLimit 0 every submitted
  job is a start node at depth 0, no worker is ever inside an expansion, and the operations
  of search on a node at depth 0 contain no submission.
\<close>
theorem Start_submits_roots_at_depth_0:
  assumes "execute sb poolSize dl sl roots schedule = Inr s"
  shows "mset (map fst (filter (\<lambda>t. snd t = 0) (submitted s))) + mset (pending_roots (caller s))
           = mset roots \<and>
         (\<not> in_Start (caller s) \<longrightarrow>
            mset (map fst (filter (\<lambda>t. snd t = 0) (submitted s))) = mset roots) \<and>
         (dl = 0 \<longrightarrow>
            (\<forall>t \<in> set (submitted s). snd t = 0 \<and> fst t \<in> set roots) \<and>
            (\<forall>w \<in> set (workerPool_workers s). \<not> is_expanding w) \<and>
            (\<forall>n c e. Submit c e \<notin> set (search_script sb dl (AtCount n 0))))"
proof -
  from execute_extra_invariant [OF assms] have r: "roots_exact roots s" by simp
  from execute_invariant [OF assms] have shape: "shape_ok sb s" and dl: "depthLimit s = dl"
    by (auto simp: invariant_def)
  from r have 1: "mset (map fst (filter (\<lambda>t. snd t = 0) (submitted s))) +
      mset (pending_roots (caller s)) = mset roots"
    by (simp add: roots_exact_def)
  have 2: "\<not> in_Start (caller s) \<longrightarrow>
            mset (map fst (filter (\<lambda>t. snd t = 0) (submitted s))) = mset roots"
    using 1 by (cases "caller s") simp_all
  have 3: "dl = 0 \<longrightarrow>
            (\<forall>t \<in> set (submitted s). snd t = 0 \<and> fst t \<in> set roots) \<and>
            (\<forall>w \<in> set (workerPool_workers s). \<not> is_expanding w) \<and>
            (\<forall>n c e. Submit c e \<notin> set (search_script sb dl (AtCount n 0)))"
  proof (intro impI conjI ballI allI)
    assume z: "dl = 0"
    with shape dl have len: "length (waiters s) = 1" by (simp add: shape_ok_def)
    {
      fix t assume t: "t \<in> set (submitted s)"
      with r len show d0: "snd t = 0" by (auto simp: roots_exact_def)
      with t have "fst t \<in> set (map fst (filter (\<lambda>t. snd t = 0) (submitted s)))" by auto
      then have "fst t \<in># mset (map fst (filter (\<lambda>t. snd t = 0) (submitted s)))" by simp
      then have "fst t \<in># mset roots" unfolding 1 [symmetric] by simp
      then show "fst t \<in> set roots" by simp
    next
      fix w assume "w \<in> set (workerPool_workers s)"
      with shape dl z have "worker_ok sb 0 w" by (auto simp: shape_ok_def list_all_iff)
      then show "\<not> is_expanding w" by (cases w) simp_all
    next
      fix n c e
      show "Submit c e \<notin> set (search_script sb dl (AtCount n 0))"
        using z by (simp add: search_script_AtCount)
    }
  qed
  from 1 2 3 show ?thesis by (intro conjI)
qed

text \<open>
  C8. In a reachable state in which the caller has returned, the buffer of the channel is
  full and a worker stands at its send with a node of depth d, every further schedule runs
  without panic and leaves that worker at the same send, blocked; the counter of the wait
  group of depth d stays positive, the announcer never passes depth d, never closes the
  channel and never prints a line for depth d or a deeper one.
\<close>
theorem full_queue_blocks_worker_forever:
  assumes "execute sb poolSize dl sl roots schedule = Inr s"
    and "stuck s i n d"
  shows "\<exists>s'. run sb s later = Inr s' \<and>
           workerPool_workers s' ! i = AtSend n d \<and>
           step sb s' (Worker i) = Blocked \<and>
           d < length (waiters s') \<and> 0 < waiters s' ! d \<and>
           cleared_upto (announcer s') (length (waiters s')) \<le> d \<and>
           announcer s' \<noteq> Closing \<and> announcer s' \<noteq> Finished \<and> \<not> found_closed s' \<and>
           (\<forall>l \<in> set (printed s'). fst l < d)"
proof -
  from execute_invariant [OF assms(1)] have inv: "invariant sb s"
    and cfg: "depthLimit s = dl" "0 \<le> dl + 1" by simp_all
  from assms(2) have i: "i < length (workerPool_workers s)"
    "workerPool_workers s ! i = AtSend n d" by (simp_all add: stuck_def)
  from inv have "barrier_exact s" "shape_ok sb s" by (simp_all add: invariant_def)
  with held_waiter_positive [of s i d] i have "d < length (waiters s)"
    and "int (length (waiters s)) = depthLimit s + 1" by (simp_all add: shape_ok_def)
  then have "0 \<le> depthLimit s" by simp
  from run_total [OF inv this] obtain s' where run: "run sb s later = Inr s'" by blast
  from run_invariant [OF run inv] have inv': "invariant sb s'" .
  then have b: "barrier_exact s'" and a: "announcer_ok s'" by (simp_all add: invariant_def)
  from run_stuck [OF run assms(2)] have st: "stuck s' i n d" .
  then have i': "i < length (workerPool_workers s')"
    "workerPool_workers s' ! i = AtSend n d" by (simp_all add: stuck_def)
  then have h: "0 < holds (workerPool_workers s' ! i) d" by simp
  from held_waiter_positive [OF b i'(1) h] have w: "d < length (waiters s')" "0 < waiters s' ! d"
    by simp_all
  from holding_not_cleared [OF b a i'(1) h]
  have c: "cleared_upto (announcer s') (length (waiters s')) \<le> d" by simp
  with w(1) have nf: "announcer s' \<noteq> Closing" "announcer s' \<noteq> Finished" by auto
  with a have ncl: "\<not> found_closed s'" by (simp add: announcer_ok_def)
  have "reported_upto (announcer s') (length (waiters s'))
      \<le> cleared_upto (announcer s') (length (waiters s'))"
    by (cases "announcer s'") simp_all
  with c have "reported_upto (announcer s') (length (waiters s')) \<le> d" by simp
  moreover from a have "printed s' =
      report_lines (searched s') (reported_upto (announcer s') (length (waiters s')))"
    by (simp add: announcer_ok_def)
  ultimately have p: "\<forall>l \<in> set (printed s'). fst l < d"
    using report_lines_fst by fastforce
  from run i'(2) stuck_blocked [OF st inv'] w c nf ncl p show ?thesis by blast
qed

theorem barrier_never_undercounts_witness:
  "execute example_tree 3 1 2 [0] (expand_root @ [Worker 1, Worker 1]) =
     Inr (projr (execute example_tree 3 1 2 [0] (expand_root @ [Worker 1, Worker 1]))) \<and>
   workerPool_queue (projr (execute example_tree 3 1 2 [0] (expand_root @ [Worker 1, Worker 1])))
     = [(2, 1), (3, 1)] \<and>
   workerPool_workers (projr (execute example_tree 3 1 2 [0] (expand_root @ [Worker 1, Worker 1])))
     = [Idle, AtTest 1 1, Idle] \<and>
   waiters (projr (execute example_tree 3 1 2 [0] (expand_root @ [Worker 1, Worker 1]))) = [0, 3] \<and>
   in_flight (projr (execute example_tree 3 1 2 [0] (expand_root @ [Worker 1, Worker 1]))) 1 = 3 \<and>
   search_script example_tree 1 (AtCount 0 0) ! 3 = Submit 1 1 \<and>
   search_script example_tree 1 (AtCount 0 0) ! 2 = Add 1"
proof -
  let ?s = "projr (execute example_tree 3 1 2 [0] (expand_root @ [Worker 1, Worker 1]))"
  have run: "execute example_tree 3 1 2 [0] (expand_root @ [Worker 1, Worker 1]) = Inr ?s"
    by code_simp
  have q: "workerPool_queue ?s = [(2, 1), (3, 1)]" by code_simp
  have w: "workerPool_workers ?s = [Idle, AtTest 1 1, Idle]" by code_simp
  have b: "waiters ?s = [0, 3]" by code_simp
  have sc: "search_script example_tree 1 (AtCount 0 0) =
     [Count 0, GoalTest, Add 1, Submit 1 1, Add 1, Submit 2 1, Add 1, Submit 3 1, LoopExit,
      Done 0]" by code_simp
  note inst = barrier_never_undercounts [OF run, of 0 0]
  from inst [THEN conjunct1, rule_format, of 1] b
  have f: "in_flight ?s 1 = 3" by simp
  have k: "3 < length (search_script example_tree 1 (AtCount 0 0)) \<and>
      search_script example_tree 1 (AtCount 0 0) ! 3 = Submit 1 1"
    unfolding sc by simp
  from inst [THEN conjunct2, THEN conjunct2, THEN conjunct2, THEN conjunct1, rule_format, OF k]
  have o: "search_script example_tree 1 (AtCount 0 0) ! 2 = Add 1" by simp
  from k have o': "search_script example_tree 1 (AtCount 0 0) ! 3 = Submit 1 1" by simp
  from run q w b f o' o show ?thesis by (intro conjI)
qed

theorem found_closed_at_most_once_after_every_depth_witness:
  "execute example_tree 3 1 5 [0] exhaust_schedule =
     Inr (projr (execute example_tree 3 1 5 [0] exhaust_schedule)) \<and>
   found_closed (projr (execute example_tree 3 1 5 [0] exhaust_schedule)) \<and>
   announcer (projr (execute example_tree 3 1 5 [0] exhaust_schedule)) = Finished \<and>
   waiters (projr (execute example_tree 3 1 5 [0] exhaust_schedule)) = [0, 0] \<and>
   printed (projr (execute example_tree 3 1 5 [0] exhaust_schedule)) = [(0, 1), (1, 3)] \<and>
   caller (projr (execute example_tree 3 1 5 [0] exhaust_schedule)) = Returned [2, 3, 1] \<and>
   int (length [2, 3, 1 :: nat]) < 5"
proof -
  let ?s = "projr (execute example_tree 3 1 5 [0] exhaust_schedule)"
  have run: "execute example_tree 3 1 5 [0] exhaust_schedule = Inr ?s" by code_simp
  have ret: "caller ?s = Returned [2, 3, 1]" by code_simp
  have w: "waiters ?s = [0, 0]" by code_simp
  have c: "searched ?s = [1, 3]" by code_simp
  have r: "report_lines (searched ?s) (length (waiters ?s)) = [(0, 1), (1, 3)]" by code_simp
  have len: "int (length [2, 3, 1 :: nat]) < 5" by simp
  note inst = found_closed_at_most_once_after_every_depth [OF run]
  from inst [THEN conjunct2, THEN conjunct2, THEN conjunct2, THEN conjunct2, THEN conjunct2,
      THEN conjunct1, rule_format, of "[2, 3, 1]"] ret len
  have cl: "found_closed ?s" by simp
  with inst [THEN conjunct1] have fin: "announcer ?s = Finished" by simp
  from inst [THEN conjunct2, THEN conjunct1, rule_format, OF cl]
  have "printed ?s = report_lines (searched ?s) (length (waiters ?s))" by simp
  then have p: "printed ?s = [(0, 1), (1, 3)]" using r by (rule trans)
  from run cl fin w p ret len show ?thesis by (intro conjI)
qed

theorem processed_count_exact_witness:
  "execute example_tree 3 1 2 [0] (expand_root @ [Worker 1]) =
     Inr (projr (execute example_tree 3 1 2 [0] (expand_root @ [Worker 1]))) \<and>
   started (projr (execute example_tree 3 1 2 [0] (expand_root @ [Worker 1]))) = [(0, 0), (1, 1)] \<and>
   searched (projr (execute example_tree 3 1 2 [0] (expand_root @ [Worker 1]))) = [1, 0] \<and>
   workerPool_workers (projr (execute example_tree 3 1 2 [0] (expand_root @ [Worker 1])))
     = [Idle, AtCount 1 1, Idle] \<and>
   processed_at (projr (execute example_tree 3 1 2 [0] (expand_root @ [Worker 1]))) 1 = 0 + 1 \<and>
   length (started (projr (execute example_tree 3 1 2 [0] (expand_root @ [Worker 1])))) = 1 + 1"
proof -
  let ?s = "projr (execute example_tree 3 1 2 [0] (expand_root @ [Worker 1]))"
  have run: "execute example_tree 3 1 2 [0] (expand_root @ [Worker 1]) = Inr ?s" by code_simp
  have st: "started ?s = [(0, 0), (1, 1)]" by code_simp
  have se: "searched ?s = [1, 0]" by code_simp
  have w: "workerPool_workers ?s = [Idle, AtCount 1 1, Idle]" by code_simp
  note inst = processed_count_exact [OF run, of 0 0]
  from inst [THEN conjunct1, rule_format, of 1] se w
  have p: "processed_at ?s 1 = 0 + 1" by simp
  from inst [THEN conjunct2, THEN conjunct1] se w
  have l: "length (started ?s) = 1 + 1" by simp
  from run st se w p l show ?thesis by (intro conjI)
qed

theorem Start_submits_roots_at_depth_0_witness:
  "execute example_tree 3 0 5 [0] depth0_schedule =
     Inr (projr (execute example_tree 3 0 5 [0] depth0_schedule)) \<and>
   caller (projr (execute example_tree 3 0 5 [0] depth0_schedule)) = Returned [] \<and>
   submitted (projr (execute example_tree 3 0 5 [0] depth0_schedule)) = [(0, 0)] \<and>
   searched (projr (execute example_tree 3 0 5 [0] depth0_schedule)) = [1] \<and>
   mset (map fst (filter (\<lambda>t. snd t = 0)
     (submitted (projr (execute example_tree 3 0 5 [0] depth0_schedule))))) = mset [0] \<and>
   list_all (\<lambda>w. \<not> is_expanding w)
     (workerPool_workers (projr (execute example_tree 3 0 5 [0] depth0_schedule)))"
proof -
  let ?s = "projr (execute example_tree 3 0 5 [0] depth0_schedule)"
  have run: "execute example_tree 3 0 5 [0] depth0_schedule = Inr ?s" by code_simp
  have c: "caller ?s = Returned []" by code_simp
  have su: "submitted ?s = [(0, 0)]" by code_simp
  have se: "searched ?s = [1]" by code_simp
  note inst = Start_submits_roots_at_depth_0 [OF run]
  from inst [THEN conjunct2, THEN conjunct1] c
  have m: "mset (map fst (filter (\<lambda>t. snd t = 0) (submitted ?s))) = mset [0]" by simp
  from inst [THEN conjunct2, THEN conjunct2]
  have e: "list_all (\<lambda>w. \<not> is_expanding w) (workerPool_workers ?s)"
    by (simp add: list_all_iff)
  from run c su se m e show ?thesis by (intro conjI)
qed

theorem full_queue_blocks_worker_forever_witness:
  "execute example_tree 3 1 1 [0] hazard_schedule =
     Inr (projr (execute example_tree 3 1 1 [0] hazard_schedule)) \<and>
   stuck (projr (execute example_tree 3 1 1 [0] hazard_schedule)) 2 3 1 \<and>
   caller (projr (execute example_tree 3 1 1 [0] hazard_schedule)) = Returned [1] \<and>
   found (projr (execute example_tree 3 1 1 [0] hazard_schedule)) = [2] \<and>
   run example_tree (projr (execute example_tree 3 1 1 [0] hazard_schedule)) later_schedule =
     Inr (projr (run example_tree (projr (execute example_tree 3 1 1 [0] hazard_schedule))
       later_schedule)) \<and>
   workerPool_workers (projr (run example_tree
       (projr (execute example_tree 3 1 1 [0] hazard_schedule)) later_schedule)) ! 2 = AtSend 3 1 \<and>
   announcer (projr (run example_tree
       (projr (execute example_tree 3 1 1 [0] hazard_schedule)) later_schedule)) = Waiting 1 \<and>
   \<not> found_closed (projr (run example_tree
       (projr (execute example_tree 3 1 1 [0] hazard_schedule)) later_schedule))"
proof -
  let ?s = "projr (execute example_tree 3 1 1 [0] hazard_schedule)"
  let ?s' = "projr (run example_tree ?s later_schedule)"
  have run: "execute example_tree 3 1 1 [0] hazard_schedule = Inr ?s" by code_simp
  have st: "stuck ?s 2 3 1" by code_simp
  have c: "caller ?s = Returned [1]" by code_simp
  have f: "found ?s = [2]" by code_simp
  have an: "announcer ?s' = Waiting 1" by code_simp
  from full_queue_blocks_worker_forever [OF run st, of later_schedule]
  obtain s' where r: "run example_tree ?s later_schedule = Inr s'"
    and w: "workerPool_workers s' ! 2 = AtSend 3 1" and ncl: "\<not> found_closed s'"
    by blast
  from r have eq: "s' = ?s'" by simp
  from r eq have r': "run example_tree ?s later_schedule = Inr ?s'" by simp
  from w eq have w': "workerPool_workers ?s' ! 2 = AtSend 3 1" by simp
  from ncl eq have ncl': "\<not> found_closed ?s'" by simp
  from run st c f r' w' an ncl' show ?thesis by (intro conjI)
qed

text \<open>
  A run in which the channel is never closed: with searchLimit 1 and three goal children,
  the caller returns the first goal, the second fills the buffer and the worker with the
  third waits at its send. Then every goroutine is blocked, and every further schedule
  leaves the state as it is.
\<close>

lemma hazard_state_all_blocked: "step example_tree hazard_state a = Blocked"
proof (cases a)
  case Caller
  have "step example_tree hazard_state Caller = Blocked" by code_simp
  with Caller show ?thesis by simp
next
  case Announcer
  have "step example_tree hazard_state Announcer = Blocked" by code_simp
  with Announcer show ?thesis by simp
next
  case (Worker i)
  have w: "workerPool_workers hazard_state = [Idle, Idle, AtSend 3 1]" by code_simp
  have q: "workerPool_queue hazard_state = []" by code_simp
  have f: "found hazard_state = [2]" "searchLimit hazard_state = 1" "\<not> found_closed hazard_state"
    "caller hazard_state = Returned [1]" by code_simp+
  have "worker_step example_tree hazard_state i = Blocked"
  proof (cases "i < 3")
    case False
    with w show ?thesis by (simp add: worker_step_def)
  next
    case True
    then consider "i = 0" | "i = 1" | "i = 2" by linarith
    then show ?thesis
      using w q f by cases (simp_all add: worker_step_def resume_def chan_send_def)
  qed
  with Worker show ?thesis by simp
qed

lemma hazard_state_is_final: "run example_tree hazard_state later = Inr hazard_state"
  by (induction later) (simp_all add: hazard_state_all_blocked)

theorem hazard_run_never_closes:
  "execute example_tree 3 1 1 [0] stall_schedule = Inr hazard_state \<and>
   caller hazard_state = Returned [1] \<and>
   waiters hazard_state = [0, 1] \<and>
   announcer hazard_state = Waiting 1 \<and>
   \<not> found_closed hazard_state \<and>
   length (workerPool_workers hazard_state) = 3 \<and>
   step example_tree hazard_state Caller = Blocked \<and>
   step example_tree hazard_state Announcer = Blocked \<and>
   step example_tree hazard_state (Worker 0) = Blocked \<and>
   step example_tree hazard_state (Worker 1) = Blocked \<and>
   step example_tree hazard_state (Worker 2) = Blocked"
  by code_simp

end
